theory Spec2Isabelle
  imports Main
begin

section \<open>JavaScript values, errors and HTTP responses\<close>

text \<open>
  The two API clients of the repository (\<^verbatim>\<open>TodoAPI\<close> and \<^verbatim>\<open>PicnicAPI\<close>) are JavaScript
  classes. Their methods are embedded as HOL functions over an explicit state; whatever
  the browser or the backend decides (the outcome of \<^verbatim>\<open>fetch\<close>, of the token
  refresh, what a registered callback does) is a parameter.

  A thrown JavaScript error is a value: its \<^verbatim>\<open>name\<close> and its \<^verbatim>\<open>message\<close>, the two
  properties the source inspects.
\<close>

datatype js_error = JsError (err_name: string) (err_message: string)

text \<open>
  Values as far as their truthiness matters (\<^verbatim>\<open>todo.completed\<close> is used as a
  condition). \<^verbatim>\<open>NaN\<close> is not modelled.
\<close>

datatype js_value = JUndefined | JNull | JBool bool | JNum int | JStr string

fun truthy :: "js_value \<Rightarrow> bool" where
  "truthy JUndefined = False"
| "truthy JNull = False"
| "truthy (JBool b) = b"
| "truthy (JNum n) = (n \<noteq> 0)"
| "truthy (JStr s) = (s \<noteq> [])"

record todo =
  title :: string
  completed :: js_value

text \<open>
  A parsed JSON body: \<^verbatim>\<open>null\<close>, or a value with the two properties the clients read:
  \<^verbatim>\<open>message\<close> (when it is a string) and \<^verbatim>\<open>documents\<close> (when it is an array of
  todos); the remaining content is opaque.
\<close>

record json_object =
  message :: "string option"
  documents :: "todo list option"
  rest :: string

datatype json = JsonNull | JsonObject json_object

text \<open>
  A response of \<^verbatim>\<open>fetch\<close>: \<^verbatim>\<open>status\<close>, \<^verbatim>\<open>ok\<close>, \<^verbatim>\<open>statusText\<close> and what
  \<^verbatim>\<open>response.json()\<close> settles to (\<open>Inl\<close>: the promise rejects). \<^verbatim>\<open>ok\<close> is a field
  of its own, as in the repository's mocked responses.
\<close>

record response =
  status :: nat
  ok :: bool
  statusText :: string
  body :: "js_error + json"

datatype fetch_outcome = Resolves response | Rejects js_error

text \<open>Decimal rendering of a number inside a template literal.\<close>

fun digit_char :: "nat \<Rightarrow> char" where
  "digit_char n = char_of (48 + n)"

function string_of_nat :: "nat \<Rightarrow> string" where
  "string_of_nat n =
     (if n < 10 then [digit_char n] else string_of_nat (n div 10) @ [digit_char (n mod 10)])"
  by pat_completeness auto
termination
  by (relation "measure (\<lambda>n. n)") auto

declare string_of_nat.simps [simp del]

text \<open>\<^verbatim>\<open>s.includes(p)\<close>: \<open>p\<close> occurs in \<open>s\<close> as a contiguous substring.\<close>

fun str_includes :: "string \<Rightarrow> string \<Rightarrow> bool" where
  "str_includes [] p = (p = [])"
| "str_includes (c # cs) p = (take (length p) (c # cs) = p \<or> str_includes cs p)"

text \<open>
  \<^verbatim>\<open>errorData.message || `HTTP ${response.status}: ${response.statusText}`\<close> with
  \<^verbatim>\<open>errorData = await response.json().catch(() => ({}))\<close>, then \<^verbatim>\<open>throw new Error(...)\<close>.
  Reading \<^verbatim>\<open>.message\<close> of \<^verbatim>\<open>null\<close> throws a \<^verbatim>\<open>TypeError\<close> instead.
\<close>

definition http_status_line :: "response \<Rightarrow> string" where
  "http_status_line r = ''HTTP '' @ string_of_nat (status r) @ '': '' @ statusText r"

definition null_property_error :: js_error where
  "null_property_error =
     JsError ''TypeError'' ''Cannot read properties of null (reading 'message')''"

definition http_error :: "response \<Rightarrow> js_error" where
  "http_error r =
     (case body r of
        Inl _ \<Rightarrow> JsError ''Error'' (http_status_line r)
      | Inr JsonNull \<Rightarrow> null_property_error
      | Inr (JsonObject errorData) \<Rightarrow>
          (case message errorData of
             Some m \<Rightarrow> if m \<noteq> [] then JsError ''Error'' m
                       else JsError ''Error'' (http_status_line r)
           | None \<Rightarrow> JsError ''Error'' (http_status_line r)))"

section \<open>TodoAPI\<close>

text \<open>
  \<^verbatim>\<open>TodoAPI.makeRequest\<close>: one \<^verbatim>\<open>fetch\<close>, no retry; a rejected \<^verbatim>\<open>fetch\<close> and a
  rejected \<^verbatim>\<open>response.json()\<close> propagate.
\<close>

definition TodoAPI_makeRequest :: "fetch_outcome \<Rightarrow> js_error + json" where
  "TodoAPI_makeRequest outcome =
     (case outcome of
        Rejects e \<Rightarrow> Inl e
      | Resolves r \<Rightarrow> if \<not> ok r then Inl (http_error r) else body r)"

text \<open>\<^verbatim>\<open>getTodos\<close>: \<^verbatim>\<open>return response.documents || []\<close>.\<close>

definition null_documents_error :: js_error where
  "null_documents_error =
     JsError ''TypeError'' ''Cannot read properties of null (reading 'documents')''"

definition getTodos :: "fetch_outcome \<Rightarrow> js_error + todo list" where
  "getTodos outcome =
     (case TodoAPI_makeRequest outcome of
        Inl e \<Rightarrow> Inl e
      | Inr JsonNull \<Rightarrow> Inl null_documents_error
      | Inr (JsonObject resp) \<Rightarrow>
          (case documents resp of Some ds \<Rightarrow> Inr ds | None \<Rightarrow> Inr []))"

record todo_stats =
  total :: nat
  stat_completed :: nat
  pending :: nat

text \<open>
  \<^verbatim>\<open>getTodoStats\<close>: the three counts over the list \<^verbatim>\<open>getTodos\<close> returned.
\<close>

definition stats_of :: "todo list \<Rightarrow> todo_stats" where
  "stats_of todos =
     \<lparr> total = length todos,
       stat_completed = length (filter (\<lambda>t. truthy (completed t)) todos),
       pending = length (filter (\<lambda>t. \<not> truthy (completed t)) todos) \<rparr>"

definition getTodoStats :: "fetch_outcome \<Rightarrow> js_error + todo_stats" where
  "getTodoStats outcome =
     (case getTodos outcome of Inl e \<Rightarrow> Inl e | Inr todos \<Rightarrow> Inr (stats_of todos))"

section \<open>PicnicAPI: the client object\<close>

text \<open>
  \<^verbatim>\<open>WebSocket.readyState\<close>, the control frames handed to \<^verbatim>\<open>ws.send\<close>
  (\<^verbatim>\<open>JSON.stringify({type, collection, eventType})\<close>), an inbound message
  \<^verbatim>\<open>{type, collection, data, id}\<close> (an absent property is \<open>None\<close>), and the argument
  a callback is invoked with.
\<close>

datatype ready_state = CONNECTING | OPEN | CLOSING | CLOSED

datatype frame = Frame (frame_type: string) (frame_collection: string) (frame_eventType: "string option")

record message =
  msg_type :: string
  msg_collection :: "string option"
  msg_data :: "string option"
  msg_id :: "string option"

datatype payload =
    PUndefined
  | PError js_error
  | PGeneric "string option" "string option" "string option"
  | PCollection "string option" "string option"
  | PMessage message

text \<open>The arguments of one call of \<^verbatim>\<open>fetch(url, options)\<close>; the bearer token as stored in \<^verbatim>\<open>this.auth\<close>.\<close>

record fetch_call =
  call_url :: string
  call_method :: string
  call_token :: "string option"
  call_body :: "string option"

text \<open>
  The fields of a \<^verbatim>\<open>PicnicAPI\<close> object that its request and WebSocket methods use.
  A callback is identified by a number (function identity). \<^verbatim>\<open>subscriptions\<close> is a
  JavaScript \<^verbatim>\<open>Map\<close> and every value of \<^verbatim>\<open>eventHandlers\<close> a \<^verbatim>\<open>Set\<close>: both are
  kept as their entry lists in insertion order, a deleted entry leaving an empty slot
  (\<open>None\<close>), which is how ECMAScript specifies them and what \<^verbatim>\<open>forEach\<close> walks.

  The last six fields are not fields of the object: they record what the object did to
  its environment (calls of \<^verbatim>\<open>fetch\<close>, calls of the token refresh, delays awaited
  between retries, frames sent, reconnect timers armed, callbacks invoked).
\<close>

record picnic_api =
  baseUrl :: string
  auth :: "string option"
  ws :: "ready_state option"
  retryAttempts :: nat
  retryDelay :: nat
  wsReconnectAttempts :: nat
  maxWsReconnectAttempts :: nat
  wsReconnectDelay :: nat
  subscriptions :: "(string \<times> nat) option list"
  eventHandlers :: "string \<Rightarrow> nat option list option"
  fetched :: "fetch_call list"
  refreshed :: nat
  slept :: "nat list"
  sent :: "frame list"
  timers :: "nat list"
  calls :: "(nat \<times> payload) list"

text \<open>The constructor.\<close>

definition new_PicnicAPI :: picnic_api where
  "new_PicnicAPI =
     \<lparr> baseUrl = ''/api'', auth = None, ws = None,
       retryAttempts = 3, retryDelay = 1000,
       wsReconnectAttempts = 0, maxWsReconnectAttempts = 10, wsReconnectDelay = 1000,
       subscriptions = [], eventHandlers = (\<lambda>event. None),
       fetched = [], refreshed = 0, slept = [], sent = [], timers = [], calls = [] \<rparr>"

section \<open>PicnicAPI: authenticated requests with retry\<close>

text \<open>
  The world a request runs in: the outcome of the \<open>k\<close>-th call of \<^verbatim>\<open>fetch\<close> made
  through this client, and \<^verbatim>\<open>window.olamoAuth.refreshToken\<close> (\<open>None\<close> when the platform
  object or the method is missing), giving the outcome of its \<open>k\<close>-th call.
\<close>

datatype refresh_outcome = NewToken string | RefreshRejects js_error

record world =
  fetch :: "nat \<Rightarrow> fetch_outcome"
  refreshToken :: "(nat \<Rightarrow> refresh_outcome) option"

definition auth_failed :: js_error where
  "auth_failed = JsError ''Error'' ''Authentication failed. Please login again.''"

text \<open>\<^verbatim>\<open>handleAuthError\<close>: refresh the token if the platform offers a refresh.\<close>

definition handleAuthError :: "world \<Rightarrow> picnic_api \<Rightarrow> (js_error + unit) \<times> picnic_api" where
  "handleAuthError w s =
     (case refreshToken w of
        None \<Rightarrow> (Inr (), s)
      | Some refresh \<Rightarrow>
          (case refresh (refreshed s) of
             NewToken t \<Rightarrow> (Inr (), s\<lparr>auth := Some t, refreshed := refreshed s + 1\<rparr>)
           | RefreshRejects _ \<Rightarrow> (Inl auth_failed, s\<lparr>refreshed := refreshed s + 1\<rparr>)))"

text \<open>
  One pass through the \<^verbatim>\<open>try\<close> block of \<^verbatim>\<open>makeRequest\<close>. It ends in one of three ways:
  a value is returned; \<^verbatim>\<open>return this.makeRequest(..., retryCount + 1)\<close> after a 401
  (the promise is returned without \<^verbatim>\<open>await\<close>, so what the recursive call throws does
  not reach this invocation's \<^verbatim>\<open>catch\<close>); or an error is thrown inside the block and
  goes to the \<^verbatim>\<open>catch\<close>.
\<close>

datatype attempt = Returned json | Replay | Thrown js_error

definition build_options :: "picnic_api \<Rightarrow> string \<Rightarrow> string \<Rightarrow> string option \<Rightarrow> fetch_call" where
  "build_options s endpoint method data =
     \<lparr> call_url = baseUrl s @ endpoint, call_method = method, call_token = auth s,
       call_body = (if data \<noteq> None \<and> (method = ''POST'' \<or> method = ''PUT'' \<or> method = ''PATCH'')
                    then data else None) \<rparr>"

definition after_auth_check :: "response \<Rightarrow> attempt" where
  "after_auth_check r =
     (if \<not> ok r then Thrown (http_error r)
      else (case body r of Inl e \<Rightarrow> Thrown e | Inr j \<Rightarrow> Returned j))"

definition try_block ::
  "world \<Rightarrow> string \<Rightarrow> string \<Rightarrow> string option \<Rightarrow> nat \<Rightarrow> picnic_api \<Rightarrow> attempt \<times> picnic_api" where
  "try_block w endpoint method data retryCount s =
     (let s1 = s\<lparr>fetched := fetched s @ [build_options s endpoint method data]\<rparr> in
      case fetch w (length (fetched s)) of
        Rejects e \<Rightarrow> (Thrown e, s1)
      | Resolves r \<Rightarrow>
          if status r = 401 then
            (case handleAuthError w s1 of
               (Inl e, s2) \<Rightarrow> (Thrown e, s2)
             | (Inr _, s2) \<Rightarrow>
                 if retryCount < retryAttempts s2 then (Replay, s2)
                 else (after_auth_check r, s2))
          else (after_auth_check r, s1))"

text \<open>The test of the \<^verbatim>\<open>catch\<close> block: \<^verbatim>\<open>error.name === 'TypeError' || error.message.includes('fetch')\<close>.\<close>

definition is_network_error :: "js_error \<Rightarrow> bool" where
  "is_network_error error = (err_name error = ''TypeError'' \<or> str_includes (err_message error) ''fetch'')"

text \<open>
  \<^verbatim>\<open>makeRequest\<close> calls itself with \<open>retryCount + 1\<close> only while \<open>retryCount\<close> is below
  \<^verbatim>\<open>this.retryAttempts\<close>, a field the \<^verbatim>\<open>try\<close> block leaves alone: it terminates.
\<close>

lemma handleAuthError_retryAttempts:
  "handleAuthError w s = (r, s') \<Longrightarrow> retryAttempts s' = retryAttempts s"
  by (auto simp: handleAuthError_def split: option.splits refresh_outcome.splits)

lemma try_block_retryAttempts:
  assumes "try_block w endpoint method data retryCount s = (a, s')"
  shows "retryAttempts s' = retryAttempts s"
proof (cases "fetch w (length (fetched s))")
  case (Rejects e)
  with assms show ?thesis by (auto simp: try_block_def Let_def)
next
  case (Resolves r)
  let ?s1 = "s\<lparr>fetched := fetched s @ [build_options s endpoint method data]\<rparr>"
  obtain x s2 where h: "handleAuthError w ?s1 = (x, s2)" by (cases "handleAuthError w ?s1")
  then have "retryAttempts s2 = retryAttempts s"
    using handleAuthError_retryAttempts [OF h] by simp
  with assms Resolves h show ?thesis
    by (auto simp: try_block_def Let_def split: if_splits sum.splits)
qed

lemma try_block_Replay:
  assumes "try_block w endpoint method data retryCount s = (Replay, s')"
  shows "retryCount < retryAttempts s'"
proof (cases "fetch w (length (fetched s))")
  case (Rejects e)
  with assms show ?thesis by (auto simp: try_block_def Let_def)
next
  case (Resolves r)
  let ?s1 = "s\<lparr>fetched := fetched s @ [build_options s endpoint method data]\<rparr>"
  obtain x s2 where h: "handleAuthError w ?s1 = (x, s2)" by (cases "handleAuthError w ?s1")
  with assms Resolves show ?thesis
    by (auto simp: try_block_def Let_def after_auth_check_def split: if_splits sum.splits)
qed

function makeRequest ::
  "world \<Rightarrow> string \<Rightarrow> string \<Rightarrow> string option \<Rightarrow> nat \<Rightarrow> picnic_api \<Rightarrow> (js_error + json) \<times> picnic_api" where
  "makeRequest w endpoint method data retryCount s =
     (case try_block w endpoint method data retryCount s of
        (Returned j, s') \<Rightarrow> (Inr j, s')
      | (Replay, s') \<Rightarrow> makeRequest w endpoint method data (retryCount + 1) s'
      | (Thrown error, s') \<Rightarrow>
          if retryCount < retryAttempts s' \<and> is_network_error error
          then makeRequest w endpoint method data (retryCount + 1)
                 (s'\<lparr>slept := slept s' @ [retryDelay s' * (retryCount + 1)]\<rparr>)
          else (Inl error, s'))"
  by pat_completeness auto
termination
proof (relation "measure (\<lambda>(w, endpoint, method, data, retryCount, s). retryAttempts s - retryCount)")
  show "wf (measure (\<lambda>(w, endpoint, method, data, retryCount, s). retryAttempts s - retryCount))"
    by simp
next
  fix w endpoint verb data retryCount s x y and z :: attempt
  assume "(x, y) = try_block w endpoint verb data retryCount s" "x = Replay"
  then have t: "try_block w endpoint verb data retryCount s = (Replay, y)" by simp
  from try_block_Replay [OF t] try_block_retryAttempts [OF t]
  show "((w, endpoint, verb, data, retryCount + 1, y), (w, endpoint, verb, data, retryCount, s))
        \<in> measure (\<lambda>(w, endpoint, method, data, retryCount, s). retryAttempts s - retryCount)"
    by simp
next
  fix w endpoint verb data retryCount s x y x3
  assume "(x, y) = try_block w endpoint verb data retryCount s" "x = Thrown x3"
    "retryCount < retryAttempts y \<and> is_network_error x3"
  then have t: "try_block w endpoint verb data retryCount s = (Thrown x3, y)"
    and lt: "retryCount < retryAttempts y" by simp_all
  from lt try_block_retryAttempts [OF t]
  show "((w, endpoint, verb, data, retryCount + 1, y\<lparr>slept := slept y @ [retryDelay y * (retryCount + 1)]\<rparr>),
         (w, endpoint, verb, data, retryCount, s))
        \<in> measure (\<lambda>(w, endpoint, method, data, retryCount, s). retryAttempts s - retryCount)"
    by simp
qed

declare makeRequest.simps [simp del]

text \<open>Counting the 401 responses among the outcomes \<open>a\<close>, ..., \<open>b - 1\<close> of \<^verbatim>\<open>fetch\<close>.\<close>

definition is_401 :: "fetch_outcome \<Rightarrow> bool" where
  "is_401 outcome = (case outcome of Resolves r \<Rightarrow> status r = 401 | Rejects _ \<Rightarrow> False)"

definition count_401 :: "world \<Rightarrow> nat \<Rightarrow> nat \<Rightarrow> nat" where
  "count_401 w a b = length (filter (\<lambda>k. is_401 (fetch w k)) [a..<b])"

text \<open>
  The bearer token in \<^verbatim>\<open>this.auth\<close> once a response has been handled, \<open>n\<close> refreshes
  having been made before: \<^verbatim>\<open>this.auth = await window.olamoAuth.refreshToken()\<close> after a
  401 when the platform offers a refresh and it succeeds; the token is unchanged otherwise.
\<close>

definition token_after :: "world \<Rightarrow> nat \<Rightarrow> fetch_outcome \<Rightarrow> string option \<Rightarrow> string option" where
  "token_after w n outcome token =
     (if is_401 outcome then
        (case refreshToken w of
           None \<Rightarrow> token
         | Some refresh \<Rightarrow> (case refresh n of NewToken t \<Rightarrow> Some t | RefreshRejects _ \<Rightarrow> token))
      else token)"

section \<open>PicnicAPI: Map and Set\<close>

text \<open>
  A JavaScript \<^verbatim>\<open>Map\<close> or \<^verbatim>\<open>Set\<close> is its list of entries in insertion order.
  \<^verbatim>\<open>delete\<close> empties the entry's slot and leaves it in the list; \<^verbatim>\<open>set\<close> of a key
  that is present overwrites the value in place, \<^verbatim>\<open>set\<close> of a new key and \<^verbatim>\<open>add\<close> of
  a new element append. \<^verbatim>\<open>forEach\<close> walks the slots by index and looks at the list
  again at every step, so it skips what was deleted before it got there and reaches
  what was appended meanwhile.
\<close>

fun live :: "'a option list \<Rightarrow> 'a list" where
  "live [] = []"
| "live (None # es) = live es"
| "live (Some e # es) = e # live es"

fun Map_get :: "string \<Rightarrow> (string \<times> nat) option list \<Rightarrow> nat option" where
  "Map_get k [] = None"
| "Map_get k (None # es) = Map_get k es"
| "Map_get k (Some (k', v) # es) = (if k' = k then Some v else Map_get k es)"

fun Map_set :: "string \<Rightarrow> nat \<Rightarrow> (string \<times> nat) option list \<Rightarrow> (string \<times> nat) option list" where
  "Map_set k v [] = [Some (k, v)]"
| "Map_set k v (None # es) = None # Map_set k v es"
| "Map_set k v (Some (k', v') # es) =
     (if k' = k then Some (k, v) # es else Some (k', v') # Map_set k v es)"

fun Map_delete :: "string \<Rightarrow> (string \<times> nat) option list \<Rightarrow> (string \<times> nat) option list" where
  "Map_delete k [] = []"
| "Map_delete k (None # es) = None # Map_delete k es"
| "Map_delete k (Some (k', v) # es) =
     (if k' = k then None # es else Some (k', v) # Map_delete k es)"

definition Set_add :: "nat \<Rightarrow> nat option list \<Rightarrow> nat option list" where
  "Set_add x es = (if Some x \<in> set es then es else es @ [Some x])"

fun Set_delete :: "nat \<Rightarrow> nat option list \<Rightarrow> nat option list" where
  "Set_delete x [] = []"
| "Set_delete x (e # es) = (if e = Some x then None # es else e # Set_delete x es)"

text \<open>The keys of the live entries are pairwise different.\<close>

definition Map_wf :: "(string \<times> nat) option list \<Rightarrow> bool" where
  "Map_wf es = distinct (map fst (live es))"

section \<open>PicnicAPI: subscriptions and event handlers\<close>

text \<open>
  \<^verbatim>\<open>const key = eventType ? `${collection}:${eventType}` : collection\<close>; \<^verbatim>\<open>null\<close> and the
  empty string are falsy.
\<close>

definition subscription_key :: "string \<Rightarrow> string option \<Rightarrow> string" where
  "subscription_key collection eventType =
     (case eventType of
        None \<Rightarrow> collection
      | Some e \<Rightarrow> if e \<noteq> [] then collection @ '':'' @ e else collection)"

text \<open>\<^verbatim>\<open>if (this.ws && this.ws.readyState === WebSocket.OPEN) this.ws.send(JSON.stringify(...))\<close>\<close>

definition ws_send :: "frame \<Rightarrow> picnic_api \<Rightarrow> picnic_api" where
  "ws_send f s = (if ws s = Some OPEN then s\<lparr>sent := sent s @ [f]\<rparr> else s)"

definition subscribe :: "string \<Rightarrow> nat \<Rightarrow> string option \<Rightarrow> picnic_api \<Rightarrow> picnic_api" where
  "subscribe collection callback eventType s =
     ws_send (Frame ''subscribe'' collection eventType)
       (s\<lparr>subscriptions := Map_set (subscription_key collection eventType) callback (subscriptions s)\<rparr>)"

definition unsubscribe :: "string \<Rightarrow> string option \<Rightarrow> picnic_api \<Rightarrow> picnic_api" where
  "unsubscribe collection eventType s =
     ws_send (Frame ''unsubscribe'' collection eventType)
       (s\<lparr>subscriptions := Map_delete (subscription_key collection eventType) (subscriptions s)\<rparr>)"

definition handlers_of :: "string \<Rightarrow> picnic_api \<Rightarrow> nat option list" where
  "handlers_of event s = (case eventHandlers s event of None \<Rightarrow> [] | Some hs \<Rightarrow> hs)"

definition on :: "string \<Rightarrow> nat \<Rightarrow> picnic_api \<Rightarrow> picnic_api" where
  "on event callback s =
     s\<lparr>eventHandlers := (eventHandlers s)(event \<mapsto> Set_add callback (handlers_of event s))\<rparr>"

definition off :: "string \<Rightarrow> nat \<Rightarrow> picnic_api \<Rightarrow> picnic_api" where
  "off event callback s =
     (case eventHandlers s event of
        None \<Rightarrow> s
      | Some hs \<Rightarrow> s\<lparr>eventHandlers := (eventHandlers s)(event \<mapsto> Set_delete callback hs)\<rparr>)"

text \<open>
  What a callback does when it is invoked is not part of the client. A callback is taken
  to act on the client through its public registration methods only, and possibly to
  throw: its behaviour is the list of such calls it makes, ended by the first
  \<open>Raise\<close>, and may depend on its argument and on the client's state. The function
  \<^verbatim>\<open>subscribe\<close> returns, \<^verbatim>\<open>() => this.unsubscribe(collection, eventType)\<close>, is
  \<open>CallUnsubscribe collection eventType\<close>.
\<close>

datatype action =
    CallSubscribe string nat "string option"
  | CallUnsubscribe string "string option"
  | CallOn string nat
  | CallOff string nat
  | Raise js_error

type_synonym behaviour = "nat \<Rightarrow> payload \<Rightarrow> picnic_api \<Rightarrow> action list"

fun run_script :: "action list \<Rightarrow> picnic_api \<Rightarrow> (js_error + unit) \<times> picnic_api" where
  "run_script [] s = (Inr (), s)"
| "run_script (CallSubscribe collection callback eventType # as) s =
     run_script as (subscribe collection callback eventType s)"
| "run_script (CallUnsubscribe collection eventType # as) s =
     run_script as (unsubscribe collection eventType s)"
| "run_script (CallOn event callback # as) s = run_script as (on event callback s)"
| "run_script (CallOff event callback # as) s = run_script as (off event callback s)"
| "run_script (Raise error # as) s = (Inl error, s)"

text \<open>\<^verbatim>\<open>callback(data)\<close>: the invocation is recorded, then the callback runs.\<close>

definition invoke :: "behaviour \<Rightarrow> nat \<Rightarrow> payload \<Rightarrow> picnic_api \<Rightarrow> (js_error + unit) \<times> picnic_api" where
  "invoke b callback data s =
     run_script (b callback data s) (s\<lparr>calls := calls s @ [(callback, data)]\<rparr>)"

text \<open>
  \<^verbatim>\<open>forEach\<close> over the entry list that \<open>entries\<close> reads from the current state, from slot
  \<open>i\<close> on. An error thrown by the visit ends the walk and propagates. A visit that keeps
  appending entries keeps the walk going for ever: the result is then \<open>None\<close>.
\<close>

partial_function (option) forEach ::
  "(picnic_api \<Rightarrow> 'e option list) \<Rightarrow> ('e \<Rightarrow> picnic_api \<Rightarrow> (js_error + unit) \<times> picnic_api)
     \<Rightarrow> nat \<Rightarrow> picnic_api \<Rightarrow> ((js_error + unit) \<times> picnic_api) option" where
  "forEach entries visit i s =
     (if i < length (entries s) then
        (case entries s ! i of
           None \<Rightarrow> forEach entries visit (i + 1) s
         | Some e \<Rightarrow>
             (case visit e s of
                (Inl error, s') \<Rightarrow> Some (Inl error, s')
              | (Inr _, s') \<Rightarrow> forEach entries visit (i + 1) s'))
      else Some (Inr (), s))"

text \<open>
  \<^verbatim>\<open>emit\<close>: every handler of the event is called inside its own \<^verbatim>\<open>try\<close>/\<^verbatim>\<open>catch\<close>, which
  logs the error and goes on.
\<close>

definition guarded :: "behaviour \<Rightarrow> payload \<Rightarrow> nat \<Rightarrow> picnic_api \<Rightarrow> (js_error + unit) \<times> picnic_api" where
  "guarded b data callback s =
     (case invoke b callback data s of
        (Inl error, s') \<Rightarrow> (Inr (), s')
      | (Inr _, s') \<Rightarrow> (Inr (), s'))"

definition emit ::
  "behaviour \<Rightarrow> string \<Rightarrow> payload \<Rightarrow> picnic_api \<Rightarrow> ((js_error + unit) \<times> picnic_api) option" where
  "emit b event data s =
     (if eventHandlers s event \<noteq> None then forEach (handlers_of event) (guarded b data) 0 s
      else Some (Inr (), s))"

section \<open>PicnicAPI: inbound messages\<close>

text \<open>\<^verbatim>\<open>subscriptionKey.split(':')\<close>\<close>

fun split_colon :: "string \<Rightarrow> string list" where
  "split_colon [] = [[]]"
| "split_colon (c # cs) =
     (if c = CHR '':'' then [] # split_colon cs
      else (case split_colon cs of p # ps \<Rightarrow> (c # p) # ps | [] \<Rightarrow> [[c]]))"

text \<open>
  \<^verbatim>\<open>const [subCollection, subType] = subscriptionKey.split(':')\<close> and the test
  \<^verbatim>\<open>collection === subCollection && (!subType || subType === type)\<close>.
\<close>

definition subscription_fires :: "string \<Rightarrow> message \<Rightarrow> bool" where
  "subscription_fires subscriptionKey m =
     (case split_colon subscriptionKey of
        [] \<Rightarrow> False
      | [subCollection] \<Rightarrow> msg_collection m = Some subCollection
      | subCollection # subType # _ \<Rightarrow>
          msg_collection m = Some subCollection \<and> (subType = [] \<or> subType = msg_type m))"

definition dispatch_subscription ::
  "behaviour \<Rightarrow> message \<Rightarrow> string \<times> nat \<Rightarrow> picnic_api \<Rightarrow> (js_error + unit) \<times> picnic_api" where
  "dispatch_subscription b m entry s =
     (case entry of (subscriptionKey, callback) \<Rightarrow>
        if subscription_fires subscriptionKey m then invoke b callback (PMessage m) s
        else (Inr (), s))"

definition dispatch_subscriptions ::
  "behaviour \<Rightarrow> message \<Rightarrow> picnic_api \<Rightarrow> ((js_error + unit) \<times> picnic_api) option" where
  "dispatch_subscriptions b m s = forEach subscriptions (dispatch_subscription b m) 0 s"

text \<open>\<^verbatim>\<open>if (collection)\<close>: the property is present and not the empty string.\<close>

definition emit_collection_event ::
  "behaviour \<Rightarrow> message \<Rightarrow> picnic_api \<Rightarrow> ((js_error + unit) \<times> picnic_api) option" where
  "emit_collection_event b m s =
     (case msg_collection m of
        None \<Rightarrow> Some (Inr (), s)
      | Some collection \<Rightarrow>
          if collection \<noteq> [] then
            emit b (''ws:'' @ collection @ '':'' @ msg_type m) (PCollection (msg_data m) (msg_id m)) s
          else Some (Inr (), s))"

definition handleWebSocketMessage ::
  "behaviour \<Rightarrow> message \<Rightarrow> picnic_api \<Rightarrow> ((js_error + unit) \<times> picnic_api) option" where
  "handleWebSocketMessage b m s =
     (case emit b (''ws:'' @ msg_type m) (PGeneric (msg_collection m) (msg_data m) (msg_id m)) s of
        None \<Rightarrow> None
      | Some (Inl error, s1) \<Rightarrow> Some (Inl error, s1)
      | Some (Inr _, s1) \<Rightarrow>
          (case emit_collection_event b m s1 of
             None \<Rightarrow> None
           | Some (Inl error, s2) \<Rightarrow> Some (Inl error, s2)
           | Some (Inr _, s2) \<Rightarrow> dispatch_subscriptions b m s2))"

section \<open>PicnicAPI: the WebSocket connection\<close>

text \<open>
  \<^verbatim>\<open>scheduleReconnect\<close>: \<^verbatim>\<open>setTimeout\<close> with delay
  \<^verbatim>\<open>this.wsReconnectDelay * Math.pow(2, this.wsReconnectAttempts)\<close> (exact in the range
  of safe integers), unless the attempts have reached the maximum.
\<close>

definition scheduleReconnect :: "picnic_api \<Rightarrow> picnic_api" where
  "scheduleReconnect s =
     (if wsReconnectAttempts s < maxWsReconnectAttempts s
      then s\<lparr>timers := timers s @ [wsReconnectDelay s * 2 ^ wsReconnectAttempts s]\<rparr>
      else s)"

text \<open>
  \<^verbatim>\<open>connectWebSocket\<close>: nothing to do when the socket is open; otherwise
  \<^verbatim>\<open>new WebSocket(wsUrl)\<close> either yields a socket that is connecting (\<open>constructed\<close>) or
  throws, and the \<^verbatim>\<open>catch\<close> schedules a reconnect.
\<close>

definition connectWebSocket :: "bool \<Rightarrow> picnic_api \<Rightarrow> picnic_api" where
  "connectWebSocket constructed s =
     (if ws s = Some OPEN then s
      else if constructed then s\<lparr>ws := Some CONNECTING\<rparr>
      else scheduleReconnect s)"

text \<open>The function handed to \<^verbatim>\<open>setTimeout\<close>.\<close>

definition reconnect_timer :: "bool \<Rightarrow> picnic_api \<Rightarrow> picnic_api" where
  "reconnect_timer constructed s =
     connectWebSocket constructed (s\<lparr>wsReconnectAttempts := wsReconnectAttempts s + 1\<rparr>)"

text \<open>
  The socket's event handlers. The browser has set \<^verbatim>\<open>readyState\<close> when it fires the
  event.
\<close>

definition ws_onopen :: "behaviour \<Rightarrow> picnic_api \<Rightarrow> ((js_error + unit) \<times> picnic_api) option" where
  "ws_onopen b s = emit b ''ws:connected'' PUndefined (s\<lparr>ws := Some OPEN, wsReconnectAttempts := 0\<rparr>)"

definition ws_onclose :: "behaviour \<Rightarrow> picnic_api \<Rightarrow> ((js_error + unit) \<times> picnic_api) option" where
  "ws_onclose b s =
     (case emit b ''ws:disconnected'' PUndefined (s\<lparr>ws := Some CLOSED\<rparr>) of
        None \<Rightarrow> None
      | Some (Inl error, s1) \<Rightarrow> Some (Inl error, s1)
      | Some (Inr _, s1) \<Rightarrow> Some (Inr (), scheduleReconnect s1))"

definition ws_onerror ::
  "behaviour \<Rightarrow> js_error \<Rightarrow> picnic_api \<Rightarrow> ((js_error + unit) \<times> picnic_api) option" where
  "ws_onerror b error s = emit b ''ws:error'' (PError error) s"

text \<open>
  \<^verbatim>\<open>onmessage\<close>: \<^verbatim>\<open>JSON.parse\<close> (\<open>None\<close>: the text does not parse) and the dispatch, inside
  one \<^verbatim>\<open>try\<close>/\<^verbatim>\<open>catch\<close> that logs.
\<close>

definition ws_onmessage ::
  "behaviour \<Rightarrow> message option \<Rightarrow> picnic_api \<Rightarrow> ((js_error + unit) \<times> picnic_api) option" where
  "ws_onmessage b parsed s =
     (case parsed of
        None \<Rightarrow> Some (Inr (), s)
      | Some m \<Rightarrow>
          (case handleWebSocketMessage b m s of
             None \<Rightarrow> None
           | Some (_, s') \<Rightarrow> Some (Inr (), s')))"

section \<open>What callbacks do\<close>

text \<open>
  Properties of a dispatch depend on what the callbacks do to the registrations while
  it runs. \<open>never kind b\<close>: no callback ever makes a call of that kind.
\<close>

fun adds_handler :: "action \<Rightarrow> bool" where
  "adds_handler (CallOn event callback) = True"
| "adds_handler _ = False"

fun changes_handlers :: "action \<Rightarrow> bool" where
  "changes_handlers (CallOn event callback) = True"
| "changes_handlers (CallOff event callback) = True"
| "changes_handlers _ = False"

fun adds_subscription :: "action \<Rightarrow> bool" where
  "adds_subscription (CallSubscribe collection callback eventType) = True"
| "adds_subscription _ = False"

fun changes_subscriptions :: "action \<Rightarrow> bool" where
  "changes_subscriptions (CallSubscribe collection callback eventType) = True"
| "changes_subscriptions (CallUnsubscribe collection eventType) = True"
| "changes_subscriptions _ = False"

fun raises :: "action \<Rightarrow> bool" where
  "raises (Raise error) = True"
| "raises _ = False"

definition never :: "(action \<Rightarrow> bool) \<Rightarrow> behaviour \<Rightarrow> bool" where
  "never kind b = (\<forall>callback data s. \<forall>a\<in>set (b callback data s). \<not> kind a)"

text \<open>A callback that does nothing.\<close>

definition inert :: behaviour where
  "inert callback data s = []"

section \<open>The calls a dispatch is expected to make\<close>



definition expected_subscription_calls :: "message \<Rightarrow> picnic_api \<Rightarrow> (nat \<times> payload) list" where
  "expected_subscription_calls m s =
     map (\<lambda>entry. (snd entry, PMessage m))
       (filter (\<lambda>entry. subscription_fires (fst entry) m) (live (subscriptions s)))"

text \<open>
  The subscription pass calls its callbacks outside any \<^verbatim>\<open>try\<close>/\<^verbatim>\<open>catch\<close>: of the
  calls it is expected to make, it makes those up to and including the first whose
  callback throws, and what that callback throws is the outcome of the pass.
\<close>

fun calls_until_throw ::
  "behaviour \<Rightarrow> (nat \<times> payload) list \<Rightarrow> picnic_api \<Rightarrow> (js_error + unit) \<times> (nat \<times> payload) list" where
  "calls_until_throw b [] s = (Inr (), [])"
| "calls_until_throw b ((callback, data) # expected) s =
     (case invoke b callback data s of
        (Inl error, s') \<Rightarrow> (Inl error, [(callback, data)])
      | (Inr _, s') \<Rightarrow>
          (case calls_until_throw b expected s' of (r, made) \<Rightarrow> (r, (callback, data) # made)))"

section \<open>Sequences of subscribe and unsubscribe\<close>

datatype subscription_op = Subscribe string nat "string option" | Unsubscribe string "string option"

fun op_collection :: "subscription_op \<Rightarrow> string" where
  "op_collection (Subscribe collection callback eventType) = collection"
| "op_collection (Unsubscribe collection eventType) = collection"

fun op_eventType :: "subscription_op \<Rightarrow> string option" where
  "op_eventType (Subscribe collection callback eventType) = eventType"
| "op_eventType (Unsubscribe collection eventType) = eventType"

fun apply_subscription_op :: "subscription_op \<Rightarrow> picnic_api \<Rightarrow> picnic_api" where
  "apply_subscription_op (Subscribe collection callback eventType) s = subscribe collection callback eventType s"
| "apply_subscription_op (Unsubscribe collection eventType) s = unsubscribe collection eventType s"

definition run_subscription_ops :: "subscription_op list \<Rightarrow> picnic_api \<Rightarrow> picnic_api" where
  "run_subscription_ops ops s = fold apply_subscription_op ops s"

text \<open>
  The net effect in the specification's words: a subscription is a (collection, optional
  event type) pair mapped to a callback; the last registration under a key wins and
  unsubscribe removes exactly that key.
\<close>

fun net_effect_op ::
  "subscription_op \<Rightarrow> (string \<times> string option \<rightharpoonup> nat) \<Rightarrow> (string \<times> string option \<rightharpoonup> nat)" where
  "net_effect_op (Subscribe collection callback eventType) A = A((collection, eventType) \<mapsto> callback)"
| "net_effect_op (Unsubscribe collection eventType) A = A((collection, eventType) := None)"

definition net_effect ::
  "subscription_op list \<Rightarrow> (string \<times> string option \<rightharpoonup> nat) \<Rightarrow> (string \<times> string option \<rightharpoonup> nat)" where
  "net_effect ops A = fold net_effect_op ops A"

section \<open>The dispatch over a snapshot\<close>

text \<open>
  The dispatch in the specification's words (\<open>dispatch should snapshot the subscription
  set\<close>, a subscription removed meanwhile is skipped): walk a snapshot of the entries
  taken when the dispatch starts, and skip an entry whose key is no longer registered
  when its turn comes.
\<close>

fun snapshot_dispatch ::
  "behaviour \<Rightarrow> message \<Rightarrow> (string \<times> nat) list \<Rightarrow> picnic_api \<Rightarrow> (js_error + unit) \<times> picnic_api" where
  "snapshot_dispatch b m [] s = (Inr (), s)"
| "snapshot_dispatch b m (entry # snapshot) s =
     (if Map_get (fst entry) (subscriptions s) \<noteq> None \<and> subscription_fires (fst entry) m then
        (case invoke b (snd entry) (PMessage m) s of
           (Inl error, s') \<Rightarrow> (Inl error, s')
         | (Inr _, s') \<Rightarrow> snapshot_dispatch b m snapshot s')
      else snapshot_dispatch b m snapshot s)"

text \<open>The entry list \<open>new\<close> is \<open>old\<close> with some entries deleted.\<close>

definition shrinks :: "'a option list \<Rightarrow> 'a option list \<Rightarrow> bool" where
  "shrinks old new = list_all2 (\<lambda>x y. y = x \<or> y = None) old new"

section \<open>Rounds of a failing connection\<close>

text \<open>
  A round of a failing connection: the socket closes; if that armed a reconnect timer,
  the timer fires and constructs a new socket.
\<close>

definition failed_round :: "behaviour \<Rightarrow> picnic_api \<Rightarrow> picnic_api option" where
  "failed_round b s =
     (case ws_onclose b s of
        None \<Rightarrow> None
      | Some (r, s1) \<Rightarrow>
          Some (if length (timers s) < length (timers s1) then reconnect_timer True s1 else s1))"

fun failed_rounds :: "nat \<Rightarrow> behaviour \<Rightarrow> picnic_api \<Rightarrow> picnic_api option" where
  "failed_rounds 0 b s = Some s"
| "failed_rounds (Suc n) b s =
     (case failed_round b s of None \<Rightarrow> None | Some s1 \<Rightarrow> failed_rounds n b s1)"

text \<open>The delays \<^verbatim>\<open>wsReconnectDelay * 2 ^ k\<close> for \<open>k\<close> from \<open>lo\<close> up to \<open>hi - 1\<close>.\<close>

definition backoff :: "picnic_api \<Rightarrow> nat \<Rightarrow> nat \<Rightarrow> nat list" where
  "backoff s lo hi = map (\<lambda>k. wsReconnectDelay s * 2 ^ k) [lo..<hi]"

section \<open>Sample responses, worlds, callbacks and clients\<close>

definition sample_todos :: "todo list" where
  "sample_todos =
     [\<lparr> title = ''milk'', completed = JBool True \<rparr>,
      \<lparr> title = ''bread'', completed = JBool False \<rparr>,
      \<lparr> title = ''eggs'', completed = JUndefined \<rparr>]"

definition sample_todos_response :: fetch_outcome where
  "sample_todos_response =
     Resolves \<lparr> status = 200, ok = True, statusText = ''OK'',
       body = Inr (JsonObject \<lparr> message = None, documents = Some sample_todos, rest = [] \<rparr>) \<rparr>"

definition unauthorized :: response where
  "unauthorized =
     \<lparr> status = 401, ok = False, statusText = ''Unauthorized'',
       body = Inr (JsonObject \<lparr> message = Some ''Token expired'', documents = None, rest = [] \<rparr>) \<rparr>"

definition always_401 :: world where
  "always_401 = \<lparr> fetch = (\<lambda>k. Resolves unauthorized), refreshToken = Some (\<lambda>k. NewToken ''new-token-123'') \<rparr>"

definition failed_to_fetch :: js_error where
  "failed_to_fetch = JsError ''TypeError'' ''Failed to fetch''"

definition always_offline :: world where
  "always_offline = \<lparr> fetch = (\<lambda>k. Rejects failed_to_fetch), refreshToken = None \<rparr>"

definition success_response :: response where
  "success_response =
     \<lparr> status = 200, ok = True, statusText = ''OK'',
       body = Inr (JsonObject \<lparr> message = None, documents = None, rest = ''success'' \<rparr>) \<rparr>"

definition expired_once :: world where
  "expired_once =
     \<lparr> fetch = (\<lambda>k. if k = 0 then Resolves unauthorized else Resolves success_response),
       refreshToken = Some (\<lambda>k. NewToken ''new-token-123'') \<rparr>"

definition network_error :: js_error where
  "network_error = JsError ''Error'' ''Network error''"

definition fails_twice :: world where
  "fails_twice =
     \<lparr> fetch = (\<lambda>k. if k < 2 then Rejects network_error else Resolves success_response),
       refreshToken = None \<rparr>"

definition thrower :: behaviour where
  "thrower callback data s = (if callback = 1 then [Raise (JsError ''Error'' ''handler failed'')] else [])"

definition unsubscribes_other :: behaviour where
  "unsubscribes_other callback data s =
     (if callback = 2 then [CallUnsubscribe ''todos'' None] else [])"

definition deleted_todo :: message where
  "deleted_todo =
     \<lparr> msg_type = ''document_deleted'', msg_collection = Some ''todos'', msg_data = None,
       msg_id = Some ''abc'' \<rparr>"


definition colliding_ops :: "subscription_op list" where
  "colliding_ops = [Subscribe ''todos:urgent'' 1 None, Subscribe ''todos'' 2 (Some ''urgent'')]"

definition plain_ops :: "subscription_op list" where
  "plain_ops = [Subscribe ''todos'' 1 None, Subscribe ''todos'' 2 (Some ''document_deleted''),
                Subscribe ''todos'' 3 None, Unsubscribe ''todos'' (Some ''document_deleted''),
                Subscribe ''picnics'' 4 None]"

definition todos_and_picnics_client :: picnic_api where
  "todos_and_picnics_client =
     subscribe ''todos'' 7 None (subscribe ''picnics'' 8 None new_PicnicAPI)"

definition colon_client :: picnic_api where
  "colon_client = subscribe ''todos:document_deleted'' 9 None new_PicnicAPI"

definition throwing_first_client :: picnic_api where
  "throwing_first_client =
     subscribe ''todos'' 2 None (subscribe ''todos'' 1 (Some ''document_deleted'') new_PicnicAPI)"

definition todos_then_thrower_client :: picnic_api where
  "todos_then_thrower_client = subscribe ''todos'' 1 (Some ''document_deleted'') todos_and_picnics_client"

definition two_todo_subscribers :: picnic_api where
  "two_todo_subscribers =
     subscribe ''todos'' 1 None (subscribe ''todos'' 2 (Some ''document_deleted'') new_PicnicAPI)"

definition waiting_client :: picnic_api where
  "waiting_client = connectWebSocket True (subscribe ''todos'' 7 None (on ''ws:connected'' 5 new_PicnicAPI))"

definition watched_client :: picnic_api where
  "watched_client = connectWebSocket True (on ''ws:disconnected'' 5 new_PicnicAPI)"

definition exhausted_client :: picnic_api where
  "exhausted_client = watched_client\<lparr>wsReconnectAttempts := 10\<rparr>"

section \<open>Todo statistics\<close>

lemma filter_partition_length:
  "length (filter P xs) + length (filter (\<lambda>x. \<not> P x) xs) = length xs"
  by (induction xs) auto

text \<open>
  Claim C10. Whenever \<^verbatim>\<open>getTodos\<close> returns a list, \<^verbatim>\<open>getTodoStats\<close> returns statistics
  for that same list, with \<open>total = completed + pending\<close>, \<open>completed\<close> the number of
  todos whose \<^verbatim>\<open>completed\<close> field is truthy and \<open>pending\<close> the number whose field is
  falsy.
\<close>

theorem getTodoStats_counts:
  assumes "getTodos outcome = Inr todos"
  shows "\<exists>st. getTodoStats outcome = Inr st
           \<and> total st = stat_completed st + pending st
           \<and> total st = length todos
           \<and> stat_completed st = card {i. i < length todos \<and> truthy (completed (todos ! i))}
           \<and> pending st = card {i. i < length todos \<and> \<not> truthy (completed (todos ! i))}"
proof -
  have cnt: "length (filter P todos) = card {i. i < length todos \<and> P (todos ! i)}" for P
    by (rule length_filter_conv_card)
  have "getTodoStats outcome = Inr (stats_of todos)"
    using assms by (simp add: getTodoStats_def)
  moreover have "total (stats_of todos) = stat_completed (stats_of todos) + pending (stats_of todos)"
    by (simp add: stats_of_def filter_partition_length)
  moreover have "stat_completed (stats_of todos)
      = card {i. i < length todos \<and> truthy (completed (todos ! i))}"
    by (simp add: stats_of_def cnt)
  moreover have "pending (stats_of todos)
      = card {i. i < length todos \<and> \<not> truthy (completed (todos ! i))}"
    by (simp add: stats_of_def cnt)
  ultimately show ?thesis
    by (simp add: stats_of_def)
qed

theorem getTodoStats_counts_witness:
  "getTodos sample_todos_response = Inr sample_todos
   \<and> (\<exists>st. getTodoStats sample_todos_response = Inr st
         \<and> total st = stat_completed st + pending st
         \<and> total st = 3 \<and> stat_completed st = 1 \<and> pending st = 2)"
proof -
  have g: "getTodos sample_todos_response = Inr sample_todos"
    by (simp add: getTodos_def TodoAPI_makeRequest_def sample_todos_response_def)
  from getTodoStats_counts [OF g] obtain st where
    st: "getTodoStats sample_todos_response = Inr st"
      "total st = stat_completed st + pending st"
    by blast
  have "getTodoStats sample_todos_response = Inr (stats_of sample_todos)"
    using g by (simp add: getTodoStats_def)
  with st have "st = stats_of sample_todos" by simp
  then have "total st = 3 \<and> stat_completed st = 1 \<and> pending st = 2"
    by (simp add: stats_of_def sample_todos_def)
  with g st show ?thesis by blast
qed

section \<open>Requests: one refresh for every 401, bounded retries\<close>

lemma handleAuthError_step:
  assumes "handleAuthError w s = (r, s')"
  shows "fetched s' = fetched s" "retryAttempts s' = retryAttempts s" "retryDelay s' = retryDelay s"
    "baseUrl s' = baseUrl s" "slept s' = slept s"
    "refreshed s' = refreshed s + (if refreshToken w \<noteq> None then 1 else 0)"
  using assms
  by (auto simp: handleAuthError_def split: option.splits refresh_outcome.splits)

lemma try_block_step:
  assumes "try_block w endpoint method data retryCount s = (a, s')"
  shows "fetched s' = fetched s @ [build_options s endpoint method data]"
    "retryDelay s' = retryDelay s" "baseUrl s' = baseUrl s" "slept s' = slept s"
    "refreshed s' = refreshed s
       + (if is_401 (fetch w (length (fetched s))) \<and> refreshToken w \<noteq> None then 1 else 0)"
proof -
  let ?s1 = "s\<lparr>fetched := fetched s @ [build_options s endpoint method data]\<rparr>"
  obtain x s2 where h: "handleAuthError w ?s1 = (x, s2)" by (cases "handleAuthError w ?s1")
  note hs = handleAuthError_step [OF h]
  have "fetched s' = fetched s @ [build_options s endpoint method data]
    \<and> retryDelay s' = retryDelay s \<and> baseUrl s' = baseUrl s \<and> slept s' = slept s
    \<and> refreshed s' = refreshed s
       + (if is_401 (fetch w (length (fetched s))) \<and> refreshToken w \<noteq> None then 1 else 0)"
  proof (cases "fetch w (length (fetched s))")
    case (Rejects e)
    with assms show ?thesis by (auto simp: try_block_def Let_def is_401_def)
  next
    case (Resolves r)
    with assms h hs show ?thesis
      by (auto simp: try_block_def Let_def is_401_def split: if_splits sum.splits)
  qed
  then show "fetched s' = fetched s @ [build_options s endpoint method data]"
    "retryDelay s' = retryDelay s" "baseUrl s' = baseUrl s" "slept s' = slept s"
    "refreshed s' = refreshed s
       + (if is_401 (fetch w (length (fetched s))) \<and> refreshToken w \<noteq> None then 1 else 0)"
    by simp_all
qed

lemma makeRequest_Returned:
  "try_block w endpoint method data retryCount s = (Returned j, s1) \<Longrightarrow>
   makeRequest w endpoint method data retryCount s = (Inr j, s1)"
  by (subst makeRequest.simps) simp

lemma makeRequest_Replay:
  "try_block w endpoint method data retryCount s = (Replay, s1) \<Longrightarrow>
   makeRequest w endpoint method data retryCount s = makeRequest w endpoint method data (retryCount + 1) s1"
  by (subst makeRequest.simps) simp

lemma makeRequest_Thrown_retry:
  "try_block w endpoint method data retryCount s = (Thrown error, s1) \<Longrightarrow>
   retryCount < retryAttempts s1 \<Longrightarrow> is_network_error error \<Longrightarrow>
   makeRequest w endpoint method data retryCount s
     = makeRequest w endpoint method data (retryCount + 1)
         (s1\<lparr>slept := slept s1 @ [retryDelay s1 * (retryCount + 1)]\<rparr>)"
  by (subst makeRequest.simps) simp

lemma makeRequest_Thrown_rethrow:
  "try_block w endpoint method data retryCount s = (Thrown error, s1) \<Longrightarrow>
   \<not> (retryCount < retryAttempts s1 \<and> is_network_error error) \<Longrightarrow>
   makeRequest w endpoint method data retryCount s = (Inl error, s1)"
  by (subst makeRequest.simps) auto

lemma makeRequest_run_induct [consumes 1, case_names Returned Replay Retry Rethrow]:
  assumes run: "makeRequest w endpoint method data retryCount s = (res, s')"
    and returned: "\<And>retryCount s j s1.
      try_block w endpoint method data retryCount s = (Returned j, s1) \<Longrightarrow> P retryCount s (Inr j) s1"
    and replay: "\<And>retryCount s s1 res s'.
      try_block w endpoint method data retryCount s = (Replay, s1) \<Longrightarrow>
      retryCount < retryAttempts s \<Longrightarrow>
      makeRequest w endpoint method data (retryCount + 1) s1 = (res, s') \<Longrightarrow>
      P (retryCount + 1) s1 res s' \<Longrightarrow> P retryCount s res s'"
    and retry: "\<And>retryCount s error s1 res s'.
      try_block w endpoint method data retryCount s = (Thrown error, s1) \<Longrightarrow>
      retryCount < retryAttempts s \<Longrightarrow> is_network_error error \<Longrightarrow>
      makeRequest w endpoint method data (retryCount + 1)
         (s1\<lparr>slept := slept s1 @ [retryDelay s1 * (retryCount + 1)]\<rparr>) = (res, s') \<Longrightarrow>
      P (retryCount + 1) (s1\<lparr>slept := slept s1 @ [retryDelay s1 * (retryCount + 1)]\<rparr>) res s' \<Longrightarrow>
      P retryCount s res s'"
    and rethrow: "\<And>retryCount s error s1.
      try_block w endpoint method data retryCount s = (Thrown error, s1) \<Longrightarrow>
      \<not> (retryCount < retryAttempts s \<and> is_network_error error) \<Longrightarrow>
      P retryCount s (Inl error) s1"
  shows "P retryCount s res s'"
  using run
proof (induction "retryAttempts s - retryCount" arbitrary: retryCount s res s' rule: less_induct)
  case less
  obtain a s1 where t: "try_block w endpoint method data retryCount s = (a, s1)"
    by (cases "try_block w endpoint method data retryCount s")
  note ra = try_block_retryAttempts [OF t]
  show ?case
  proof (cases a)
    case (Returned j)
    with t less.prems have "res = Inr j" "s' = s1" by (simp_all add: makeRequest_Returned)
    with t Returned returned show ?thesis by simp
  next
    case Replay
    with t have lt: "retryCount < retryAttempts s" using try_block_Replay ra by metis
    from Replay t less.prems
    have m: "makeRequest w endpoint method data (retryCount + 1) s1 = (res, s')"
      by (simp add: makeRequest_Replay)
    have "retryAttempts s1 - (retryCount + 1) < retryAttempts s - retryCount"
      using lt ra by simp
    then have "P (retryCount + 1) s1 res s'"
      using m by (rule less.hyps)
    with t Replay lt m show ?thesis using replay by simp
  next
    case (Thrown error)
    show ?thesis
    proof (cases "retryCount < retryAttempts s1 \<and> is_network_error error")
      case True
      let ?s2 = "s1\<lparr>slept := slept s1 @ [retryDelay s1 * (retryCount + 1)]\<rparr>"
      from True Thrown t less.prems
      have m: "makeRequest w endpoint method data (retryCount + 1) ?s2 = (res, s')"
        by (simp add: makeRequest_Thrown_retry)
      have "retryAttempts ?s2 - (retryCount + 1) < retryAttempts s - retryCount"
        using True ra by auto
      then have "P (retryCount + 1) ?s2 res s'"
        using m by (rule less.hyps)
      with t Thrown True ra m show ?thesis using retry by simp
    next
      case False
      with Thrown t less.prems have "res = Inl error" "s' = s1"
        by (simp_all add: makeRequest_Thrown_rethrow)
      with t Thrown False ra show ?thesis using rethrow by simp
    qed
  qed
qed

lemma makeRequest_requests:
  assumes "makeRequest w endpoint method data retryCount s = (res, s')"
  shows "retryAttempts s' = retryAttempts s \<and> retryDelay s' = retryDelay s \<and> baseUrl s' = baseUrl s
     \<and> (\<exists>new. fetched s' = fetched s @ new \<and> 1 \<le> length new
           \<and> length new \<le> retryAttempts s - retryCount + 1
           \<and> (\<forall>c\<in>set new. call_url c = baseUrl s @ endpoint \<and> call_method c = method
                 \<and> call_body c = call_body (build_options s endpoint method data)))"
  using assms
proof (induction rule: makeRequest_run_induct)
  case (Returned retryCount s j s1)
  note st = try_block_step [OF Returned] try_block_retryAttempts [OF Returned]
  then show ?case by (simp add: build_options_def)
next
  case (Replay retryCount s s1 res s')
  note st = try_block_step [OF Replay(1)] try_block_retryAttempts [OF Replay(1)]
  let ?c = "build_options s endpoint method data"
  from Replay(4) obtain new where
    n: "fetched s' = fetched s1 @ new" "1 \<le> length new"
       "length new \<le> retryAttempts s1 - (retryCount + 1) + 1"
       "\<forall>c\<in>set new. call_url c = baseUrl s1 @ endpoint \<and> call_method c = method
               \<and> call_body c = call_body (build_options s1 endpoint method data)"
    by blast
  have "fetched s' = fetched s @ (?c # new)" using n st by simp
  moreover have "length (?c # new) \<le> retryAttempts s - retryCount + 1"
    using n Replay(2) st by simp
  moreover have "\<forall>c\<in>set (?c # new). call_url c = baseUrl s @ endpoint \<and> call_method c = method
               \<and> call_body c = call_body ?c"
    using n st by (simp add: build_options_def)
  ultimately have "\<exists>new. fetched s' = fetched s @ new \<and> 1 \<le> length new
           \<and> length new \<le> retryAttempts s - retryCount + 1
           \<and> (\<forall>c\<in>set new. call_url c = baseUrl s @ endpoint \<and> call_method c = method
                 \<and> call_body c = call_body ?c)"
    by (intro exI [of _ "?c # new"]) simp
  with Replay(4) st show ?case by simp
next
  case (Retry retryCount s error s1 res s')
  note st = try_block_step [OF Retry(1)] try_block_retryAttempts [OF Retry(1)]
  let ?c = "build_options s endpoint method data"
  let ?s2 = "s1\<lparr>slept := slept s1 @ [retryDelay s1 * (retryCount + 1)]\<rparr>"
  from Retry(5) obtain new where
    n: "fetched s' = fetched ?s2 @ new" "1 \<le> length new"
       "length new \<le> retryAttempts ?s2 - (retryCount + 1) + 1"
       "\<forall>c\<in>set new. call_url c = baseUrl ?s2 @ endpoint \<and> call_method c = method
               \<and> call_body c = call_body (build_options ?s2 endpoint method data)"
    by blast
  have "fetched s' = fetched s @ (?c # new)" using n st by simp
  moreover have "length (?c # new) \<le> retryAttempts s - retryCount + 1"
    using n Retry(2) st by simp
  moreover have "\<forall>c\<in>set (?c # new). call_url c = baseUrl s @ endpoint \<and> call_method c = method
               \<and> call_body c = call_body ?c"
    using n st by (simp add: build_options_def)
  ultimately have "\<exists>new. fetched s' = fetched s @ new \<and> 1 \<le> length new
           \<and> length new \<le> retryAttempts s - retryCount + 1
           \<and> (\<forall>c\<in>set new. call_url c = baseUrl s @ endpoint \<and> call_method c = method
                 \<and> call_body c = call_body ?c)"
    by (intro exI [of _ "?c # new"]) simp
  with Retry(5) st show ?case by simp
next
  case (Rethrow retryCount s error s1)
  note st = try_block_step [OF Rethrow(1)] try_block_retryAttempts [OF Rethrow(1)]
  then show ?case by (simp add: build_options_def)
qed

lemma count_401_step:
  "a < b \<Longrightarrow> count_401 w a b = (if is_401 (fetch w a) then 1 else 0) + count_401 w (Suc a) b"
  by (simp add: count_401_def upt_conv_Cons)

lemma count_401_one: "count_401 w a (Suc a) = (if is_401 (fetch w a) then 1 else 0)"
  by (simp add: count_401_def)

lemma makeRequest_refreshes:
  assumes "makeRequest w endpoint method data retryCount s = (res, s')"
  shows "refreshed s' = refreshed s
     + (if refreshToken w = None then 0 else count_401 w (length (fetched s)) (length (fetched s')))"
  using assms
proof (induction rule: makeRequest_run_induct)
  case (Returned retryCount s j s1)
  note st = try_block_step [OF Returned]
  then show ?case by (simp add: count_401_one)
next
  case (Replay retryCount s s1 res s')
  note st = try_block_step [OF Replay(1)]
  from makeRequest_requests [OF Replay(3)] st have "length (fetched s) + 1 < length (fetched s')"
    by auto
  then have "count_401 w (length (fetched s)) (length (fetched s'))
     = (if is_401 (fetch w (length (fetched s))) then 1 else 0)
       + count_401 w (Suc (length (fetched s))) (length (fetched s'))"
    by (intro count_401_step) simp
  with Replay(4) st show ?case by simp
next
  case (Retry retryCount s error s1 res s')
  note st = try_block_step [OF Retry(1)]
  from makeRequest_requests [OF Retry(4)] st have "length (fetched s) + 1 < length (fetched s')"
    by auto
  then have "count_401 w (length (fetched s)) (length (fetched s'))
     = (if is_401 (fetch w (length (fetched s))) then 1 else 0)
       + count_401 w (Suc (length (fetched s))) (length (fetched s'))"
    by (intro count_401_step) simp
  with Retry(5) st show ?case by simp
next
  case (Rethrow retryCount s error s1)
  note st = try_block_step [OF Rethrow(1)]
  then show ?case by (simp add: count_401_one)
qed

lemma makeRequest_sleeps:
  assumes "makeRequest w endpoint method data retryCount s = (res, s')"
  shows "\<exists>ks. slept s' = slept s @ map (\<lambda>k. retryDelay s * k) ks \<and> sorted_wrt (<) ks
           \<and> set ks \<subseteq> {retryCount + 1..retryAttempts s}"
  using assms
proof (induction rule: makeRequest_run_induct)
  case (Returned retryCount s j s1)
  note st = try_block_step [OF Returned]
  then show ?case by simp
next
  case (Replay retryCount s s1 res s')
  note st = try_block_step [OF Replay(1)] try_block_retryAttempts [OF Replay(1)]
  from Replay(4) obtain ks where
    "slept s' = slept s1 @ map (\<lambda>k. retryDelay s1 * k) ks" "sorted_wrt (<) ks"
    "set ks \<subseteq> {retryCount + 1 + 1..retryAttempts s1}"
    by blast
  with st have "slept s' = slept s @ map (\<lambda>k. retryDelay s * k) ks \<and> sorted_wrt (<) ks
           \<and> set ks \<subseteq> {retryCount + 1..retryAttempts s}"
    by auto
  then show ?case by blast
next
  case (Retry retryCount s error s1 res s')
  note st = try_block_step [OF Retry(1)] try_block_retryAttempts [OF Retry(1)]
  let ?s2 = "s1\<lparr>slept := slept s1 @ [retryDelay s1 * (retryCount + 1)]\<rparr>"
  from Retry(5) obtain ks where
    ks: "slept s' = slept ?s2 @ map (\<lambda>k. retryDelay ?s2 * k) ks" "sorted_wrt (<) ks"
    "set ks \<subseteq> {retryCount + 1 + 1..retryAttempts ?s2}"
    by blast
  have "slept s' = slept s @ map (\<lambda>k. retryDelay s * k) ((retryCount + 1) # ks)"
    using ks(1) st by simp
  moreover have "sorted_wrt (<) ((retryCount + 1) # ks)"
    using ks(2,3) by auto
  moreover have "set ((retryCount + 1) # ks) \<subseteq> {retryCount + 1..retryAttempts s}"
    using ks(3) Retry(2) st by auto
  ultimately show ?case by blast
next
  case (Rethrow retryCount s error s1)
  note st = try_block_step [OF Rethrow(1)]
  then show ?case by simp
qed

lemma try_block_Rejects:
  "fetch w (length (fetched s)) = Rejects e \<Longrightarrow>
   try_block w endpoint method data retryCount s
     = (Thrown e, s\<lparr>fetched := fetched s @ [build_options s endpoint method data]\<rparr>)"
  by (simp add: try_block_def Let_def)

lemma try_block_401:
  assumes "fetch w (length (fetched s)) = Resolves r" "status r = 401" "\<not> ok r"
    "refreshToken w = Some refresh" "refresh (refreshed s) = NewToken t"
  shows "try_block w endpoint method data retryCount s
     = (if retryCount < retryAttempts s then Replay else Thrown (http_error r),
        s\<lparr>fetched := fetched s @ [build_options s endpoint method data],
          auth := Some t, refreshed := refreshed s + 1\<rparr>)"
  using assms by (simp add: try_block_def Let_def handleAuthError_def after_auth_check_def)

lemma makeRequest_offline:
  assumes run: "makeRequest w endpoint method data retryCount s = (res, s')"
    and offline: "\<And>k. \<exists>error. fetch w k = Rejects error \<and> is_network_error error"
  shows "retryCount \<le> retryAttempts s \<longrightarrow>
      length (fetched s') + retryCount = length (fetched s) + retryAttempts s + 1
    \<and> slept s' = slept s @ map (\<lambda>k. retryDelay s * k) [retryCount + 1..<retryAttempts s + 1]
    \<and> (\<exists>error. res = Inl error \<and> is_network_error error
          \<and> fetch w (length (fetched s') - 1) = Rejects error)"
  using run
proof (induction rule: makeRequest_run_induct)
  case (Returned retryCount s j s1)
  from offline obtain e where "fetch w (length (fetched s)) = Rejects e" by blast
  from try_block_Rejects [OF this] Returned show ?case by simp
next
  case (Replay retryCount s s1 res s')
  from offline obtain e where "fetch w (length (fetched s)) = Rejects e" by blast
  from try_block_Rejects [OF this] Replay(1) show ?case by simp
next
  case (Retry retryCount s error s1 res s')
  note st = try_block_step [OF Retry(1)] try_block_retryAttempts [OF Retry(1)]
  let ?s2 = "s1\<lparr>slept := slept s1 @ [retryDelay s1 * (retryCount + 1)]\<rparr>"
  have le: "retryCount + 1 \<le> retryAttempts ?s2" using Retry(2) st by simp
  with Retry(5) have
    a: "length (fetched s') + (retryCount + 1) = length (fetched ?s2) + retryAttempts ?s2 + 1"
    and b: "slept s' = slept ?s2
              @ map (\<lambda>k. retryDelay ?s2 * k) [retryCount + 1 + 1..<retryAttempts ?s2 + 1]"
    and c: "\<exists>error. res = Inl error \<and> is_network_error error
          \<and> fetch w (length (fetched s') - 1) = Rejects error"
    by blast+
  have u: "[retryCount + 1..<retryAttempts s + 1]
      = (retryCount + 1) # [retryCount + 1 + 1..<retryAttempts s + 1]"
    using Retry(2) upt_conv_Cons [of "retryCount + 1" "retryAttempts s + 1"]
    by (simp del: upt_Suc)
  have "length (fetched s') + retryCount = length (fetched s) + retryAttempts s + 1"
    using a st by simp
  moreover have "slept s' = slept s @ map (\<lambda>k. retryDelay s * k) [retryCount + 1..<retryAttempts s + 1]"
    unfolding u using b st by simp
  ultimately show ?case using c by blast
next
  case (Rethrow retryCount s error s1)
  note st = try_block_step [OF Rethrow(1)]
  from offline obtain e where e: "fetch w (length (fetched s)) = Rejects e" "is_network_error e"
    by blast
  from try_block_Rejects [OF e(1)] Rethrow(1) have "error = e" by simp
  with Rethrow(2) e have ge: "retryAttempts s \<le> retryCount" by simp
  show ?case
  proof
    assume "retryCount \<le> retryAttempts s"
    with ge have eq: "retryCount = retryAttempts s" by simp
    have "length (fetched s1) + retryCount = length (fetched s) + retryAttempts s + 1"
      using st eq by simp
    moreover have "slept s1 = slept s @ map (\<lambda>k. retryDelay s * k) [retryCount + 1..<retryAttempts s + 1]"
      using st eq by simp
    moreover have "fetch w (length (fetched s1) - 1) = Rejects error"
      using st e \<open>error = e\<close> by simp
    ultimately show "length (fetched s1) + retryCount = length (fetched s) + retryAttempts s + 1
      \<and> slept s1 = slept s @ map (\<lambda>k. retryDelay s * k) [retryCount + 1..<retryAttempts s + 1]
      \<and> (\<exists>error'. Inl error = Inl error' \<and> is_network_error error'
            \<and> fetch w (length (fetched s1) - 1) = Rejects error')"
      using e \<open>error = e\<close> by blast
  qed
qed

lemma makeRequest_all_401:
  assumes run: "makeRequest w endpoint method data retryCount s = (res, s')"
    and refresh: "refreshToken w = Some refresh" "\<And>k. \<exists>t. refresh k = NewToken t"
    and unauthorized: "\<And>k. \<exists>r. fetch w k = Resolves r \<and> status r = 401 \<and> \<not> ok r"
  shows "retryCount \<le> retryAttempts s \<longrightarrow>
      length (fetched s') + retryCount = length (fetched s) + retryAttempts s + 1
    \<and> refreshed s' + retryCount = refreshed s + retryAttempts s + 1
    \<and> slept s' = slept s
    \<and> (\<exists>r. fetch w (length (fetched s') - 1) = Resolves r \<and> res = Inl (http_error r))"
  using run
proof (induction rule: makeRequest_run_induct)
  case (Returned retryCount s j s1)
  from unauthorized obtain r where r: "fetch w (length (fetched s)) = Resolves r" "status r = 401" "\<not> ok r"
    by blast
  from refresh(2) obtain t where "refresh (refreshed s) = NewToken t" by blast
  from try_block_401 [OF r refresh(1) this] Returned show ?case by (simp split: if_splits)
next
  case (Replay retryCount s s1 res s')
  note st = try_block_step [OF Replay(1)] try_block_retryAttempts [OF Replay(1)]
  from unauthorized obtain r where r: "fetch w (length (fetched s)) = Resolves r" "status r = 401" "\<not> ok r"
    by blast
  with refresh(1) have "is_401 (fetch w (length (fetched s))) \<and> refreshToken w \<noteq> None"
    by (simp add: is_401_def)
  with st have rf: "refreshed s1 = refreshed s + 1" by simp
  have "retryCount + 1 \<le> retryAttempts s1" using Replay(2) st by simp
  with Replay(4) have
    a: "length (fetched s') + (retryCount + 1) = length (fetched s1) + retryAttempts s1 + 1"
    and b: "refreshed s' + (retryCount + 1) = refreshed s1 + retryAttempts s1 + 1"
    and c: "slept s' = slept s1"
    and d: "\<exists>r. fetch w (length (fetched s') - 1) = Resolves r \<and> res = Inl (http_error r)"
    by blast+
  have "length (fetched s') + retryCount = length (fetched s) + retryAttempts s + 1"
    using a st by simp
  moreover have "refreshed s' + retryCount = refreshed s + retryAttempts s + 1"
    using b rf st by simp
  moreover have "slept s' = slept s" using c st by simp
  ultimately show ?case using d by blast
next
  case (Retry retryCount s error s1 res s')
  from unauthorized obtain r where r: "fetch w (length (fetched s)) = Resolves r" "status r = 401" "\<not> ok r"
    by blast
  from refresh(2) obtain t where "refresh (refreshed s) = NewToken t" by blast
  from try_block_401 [OF r refresh(1) this] Retry(1,2) show ?case by simp
next
  case (Rethrow retryCount s error s1)
  note st = try_block_step [OF Rethrow(1)]
  from unauthorized obtain r where r: "fetch w (length (fetched s)) = Resolves r" "status r = 401" "\<not> ok r"
    by blast
  from refresh(2) obtain t where "refresh (refreshed s) = NewToken t" by blast
  from try_block_401 [OF r refresh(1) this] Rethrow(1)
  have er: "error = http_error r" and ge: "retryAttempts s \<le> retryCount"
    by (simp_all split: if_splits)
  from r refresh(1) have "is_401 (fetch w (length (fetched s))) \<and> refreshToken w \<noteq> None"
    by (simp add: is_401_def)
  with st have rf: "refreshed s1 = refreshed s + 1" by simp
  show ?case
  proof
    assume "retryCount \<le> retryAttempts s"
    with ge have eq: "retryCount = retryAttempts s" by simp
    have "length (fetched s1) + retryCount = length (fetched s) + retryAttempts s + 1"
      using st eq by simp
    moreover have "refreshed s1 + retryCount = refreshed s + retryAttempts s + 1"
      using rf eq by simp
    moreover have "slept s1 = slept s" using st by simp
    moreover have "fetch w (length (fetched s1) - 1) = Resolves r"
      using st r by simp
    ultimately show "length (fetched s1) + retryCount = length (fetched s) + retryAttempts s + 1
      \<and> refreshed s1 + retryCount = refreshed s + retryAttempts s + 1
      \<and> slept s1 = slept s
      \<and> (\<exists>r. fetch w (length (fetched s1) - 1) = Resolves r \<and> Inl error = Inl (http_error r))"
      using er by blast
  qed
qed

lemma try_block_auth:
  assumes "try_block w endpoint method data retryCount s = (a, s')"
  shows "auth s' = token_after w (refreshed s) (fetch w (length (fetched s))) (auth s)"
proof (cases "fetch w (length (fetched s))")
  case (Rejects e)
  with assms show ?thesis by (auto simp: try_block_def Let_def is_401_def token_after_def)
next
  case (Resolves r)
  with assms show ?thesis
    by (auto simp: try_block_def Let_def is_401_def token_after_def handleAuthError_def
        split: if_splits sum.splits option.splits refresh_outcome.splits prod.splits)
qed

lemma token_after_index:
  "refreshToken w = None \<or> n = n' \<Longrightarrow> token_after w n outcome token = token_after w n' outcome token"
  by (auto simp: token_after_def)

lemma count_401_empty: "count_401 w a a = 0"
  by (simp add: count_401_def)

lemma call_token_build_options [simp]: "call_token (build_options s endpoint method data) = auth s"
  by (simp add: build_options_def)

lemma tokens_step:
  assumes st: "fetched s1 = fetched s @ [c]" "call_token c = auth s"
      "refreshed s1 = refreshed s
         + (if is_401 (fetch w (length (fetched s))) \<and> refreshToken w \<noteq> None then 1 else 0)"
      "auth s1 = token_after w (refreshed s) (fetch w (length (fetched s))) (auth s)"
    and new: "fetched s' = fetched s1 @ new" "1 \<le> length new"
    and ih: "call_token (fetched s' ! length (fetched s1)) = auth s1
     \<and> (\<forall>k. length (fetched s1) \<le> k \<and> k + 1 < length (fetched s') \<longrightarrow>
           call_token (fetched s' ! (k + 1))
             = token_after w (refreshed s1 + count_401 w (length (fetched s1)) k) (fetch w k)
                 (call_token (fetched s' ! k)))
     \<and> auth s' = token_after w (refreshed s1 + count_401 w (length (fetched s1)) (length (fetched s') - 1))
                    (fetch w (length (fetched s') - 1))
                    (call_token (fetched s' ! (length (fetched s') - 1)))"
  shows "call_token (fetched s' ! length (fetched s)) = auth s
     \<and> (\<forall>k. length (fetched s) \<le> k \<and> k + 1 < length (fetched s') \<longrightarrow>
           call_token (fetched s' ! (k + 1))
             = token_after w (refreshed s + count_401 w (length (fetched s)) k) (fetch w k)
                 (call_token (fetched s' ! k)))
     \<and> auth s' = token_after w (refreshed s + count_401 w (length (fetched s)) (length (fetched s') - 1))
                    (fetch w (length (fetched s') - 1))
                    (call_token (fetched s' ! (length (fetched s') - 1)))"
proof -
  let ?a = "length (fetched s)"
  have len1: "length (fetched s1) = ?a + 1" using st(1) by simp
  have first: "call_token (fetched s' ! ?a) = auth s"
    using st(1,2) new(1) by (simp add: nth_append)
  have idx: "refreshToken w = None \<or> refreshed s1 + count_401 w (?a + 1) k = refreshed s + count_401 w ?a k"
    if "?a < k" for k
    using count_401_step [OF that, of w] st(3) by auto
  have mid: "call_token (fetched s' ! (k + 1))
             = token_after w (refreshed s + count_401 w ?a k) (fetch w k) (call_token (fetched s' ! k))"
    if k: "?a \<le> k" "k + 1 < length (fetched s')" for k
  proof (cases "k = ?a")
    case True
    from ih len1 have "call_token (fetched s' ! (?a + 1)) = auth s1" by simp
    with True st(4) first show ?thesis by (simp add: count_401_empty)
  next
    case False
    with k have gt: "?a < k" by simp
    with k len1 ih have "call_token (fetched s' ! (k + 1))
             = token_after w (refreshed s1 + count_401 w (?a + 1) k) (fetch w k)
                 (call_token (fetched s' ! k))"
      by simp
    with token_after_index [OF idx [OF gt]] show ?thesis by simp
  qed
  have "?a < length (fetched s') - 1" using new len1 by (cases new) simp_all
  from token_after_index [OF idx [OF this]] ih len1
  have fin: "auth s' = token_after w (refreshed s + count_401 w ?a (length (fetched s') - 1))
                    (fetch w (length (fetched s') - 1))
                    (call_token (fetched s' ! (length (fetched s') - 1)))"
    by simp
  from first mid fin show ?thesis by blast
qed

lemma makeRequest_tokens:
  assumes "makeRequest w endpoint method data retryCount s = (res, s')"
  shows "call_token (fetched s' ! length (fetched s)) = auth s
     \<and> (\<forall>k. length (fetched s) \<le> k \<and> k + 1 < length (fetched s') \<longrightarrow>
           call_token (fetched s' ! (k + 1))
             = token_after w (refreshed s + count_401 w (length (fetched s)) k) (fetch w k)
                 (call_token (fetched s' ! k)))
     \<and> auth s' = token_after w (refreshed s + count_401 w (length (fetched s)) (length (fetched s') - 1))
                    (fetch w (length (fetched s') - 1))
                    (call_token (fetched s' ! (length (fetched s') - 1)))"
  using assms
proof (induction rule: makeRequest_run_induct)
  case (Returned retryCount s j s1)
  note st = try_block_step [OF Returned] try_block_auth [OF Returned]
  then show ?case by (auto simp: count_401_empty)
next
  case (Rethrow retryCount s error s1)
  note st = try_block_step [OF Rethrow(1)] try_block_auth [OF Rethrow(1)]
  then show ?case by (auto simp: count_401_empty)
next
  case (Replay retryCount s s1 res s')
  note st = try_block_step [OF Replay(1)] try_block_auth [OF Replay(1)]
  from makeRequest_requests [OF Replay(3)] obtain new where
    new: "fetched s' = fetched s1 @ new" "1 \<le> length new" by blast
  show ?case
    by (rule tokens_step [OF st(1) call_token_build_options st(5) st(6) new Replay(4)])
next
  case (Retry retryCount s error s1 res s')
  note st = try_block_step [OF Retry(1)] try_block_auth [OF Retry(1)]
  let ?s2 = "s1\<lparr>slept := slept s1 @ [retryDelay s1 * (retryCount + 1)]\<rparr>"
  from makeRequest_requests [OF Retry(4)] obtain new where
    new: "fetched s' = fetched ?s2 @ new" "1 \<le> length new" by blast
  have a: "fetched ?s2 = fetched s @ [build_options s endpoint method data]"
    "refreshed ?s2 = refreshed s
         + (if is_401 (fetch w (length (fetched s))) \<and> refreshToken w \<noteq> None then 1 else 0)"
    "auth ?s2 = token_after w (refreshed s) (fetch w (length (fetched s))) (auth s)"
    using st by simp_all
  show ?case
    by (rule tokens_step [OF a(1) call_token_build_options a(2) a(3) new Retry(5)])
qed

lemma try_block_replays:
  assumes "is_401 (fetch w (length (fetched s)))"
    "\<forall>refresh. refreshToken w = Some refresh \<longrightarrow> (\<exists>t. refresh (refreshed s) = NewToken t)"
    "retryCount < retryAttempts s"
  shows "fst (try_block w endpoint method data retryCount s) = Replay"
proof (cases "fetch w (length (fetched s))")
  case (Rejects e)
  with assms(1) show ?thesis by (simp add: is_401_def)
next
  case (Resolves r)
  with assms show ?thesis
    by (auto simp: try_block_def Let_def is_401_def handleAuthError_def
        split: option.splits refresh_outcome.splits)
qed

lemma replays_step:
  assumes st: "length (fetched s1) = length (fetched s) + 1"
      "refreshed s1 = refreshed s
         + (if is_401 (fetch w (length (fetched s))) \<and> refreshToken w \<noteq> None then 1 else 0)"
      "retryAttempts s1 = retryAttempts s"
    and new: "length (fetched s1) < length (fetched s')"
    and ih: "\<forall>k. length (fetched s1) \<le> k \<and> k < length (fetched s') \<and> is_401 (fetch w k)
         \<and> (\<forall>refresh. refreshToken w = Some refresh \<longrightarrow>
               (\<exists>t. refresh (refreshed s1 + count_401 w (length (fetched s1)) k) = NewToken t))
         \<and> retryCount + 1 + (k - length (fetched s1)) < retryAttempts s1
        \<longrightarrow> k + 1 < length (fetched s')"
  shows "\<forall>k. length (fetched s) \<le> k \<and> k < length (fetched s') \<and> is_401 (fetch w k)
         \<and> (\<forall>refresh. refreshToken w = Some refresh \<longrightarrow>
               (\<exists>t. refresh (refreshed s + count_401 w (length (fetched s)) k) = NewToken t))
         \<and> retryCount + (k - length (fetched s)) < retryAttempts s
        \<longrightarrow> k + 1 < length (fetched s')"
proof (intro allI impI)
  fix k
  let ?a = "length (fetched s)"
  assume h: "?a \<le> k \<and> k < length (fetched s') \<and> is_401 (fetch w k)
         \<and> (\<forall>refresh. refreshToken w = Some refresh \<longrightarrow>
               (\<exists>t. refresh (refreshed s + count_401 w ?a k) = NewToken t))
         \<and> retryCount + (k - ?a) < retryAttempts s"
  show "k + 1 < length (fetched s')"
  proof (cases "k = ?a")
    case True
    with new st(1) show ?thesis by simp
  next
    case False
    with h have gt: "?a < k" by simp
    have idx: "refreshToken w = None \<or> refreshed s1 + count_401 w (?a + 1) k = refreshed s + count_401 w ?a k"
      using count_401_step [OF gt, of w] st(2) by auto
    have "\<forall>refresh. refreshToken w = Some refresh \<longrightarrow>
               (\<exists>t. refresh (refreshed s1 + count_401 w (length (fetched s1)) k) = NewToken t)"
      using h idx st(1) by auto
    moreover have "retryCount + 1 + (k - length (fetched s1)) < retryAttempts s1"
    proof -
      from h have "retryCount + (k - ?a) < retryAttempts s" by blast
      with gt st(1,3) show ?thesis by arith
    qed
    moreover have "length (fetched s1) \<le> k" using gt st(1) by simp
    ultimately show ?thesis using ih h by blast
  qed
qed

lemma makeRequest_replays_after_401:
  assumes "makeRequest w endpoint method data retryCount s = (res, s')"
  shows "\<forall>k. length (fetched s) \<le> k \<and> k < length (fetched s') \<and> is_401 (fetch w k)
         \<and> (\<forall>refresh. refreshToken w = Some refresh \<longrightarrow>
               (\<exists>t. refresh (refreshed s + count_401 w (length (fetched s)) k) = NewToken t))
         \<and> retryCount + (k - length (fetched s)) < retryAttempts s
        \<longrightarrow> k + 1 < length (fetched s')"
  using assms
proof (induction rule: makeRequest_run_induct)
  case (Returned retryCount s j s1)
  note st = try_block_step [OF Returned]
  show ?case
  proof (intro allI impI)
    fix k
    assume h: "length (fetched s) \<le> k \<and> k < length (fetched s1) \<and> is_401 (fetch w k)
         \<and> (\<forall>refresh. refreshToken w = Some refresh \<longrightarrow>
               (\<exists>t. refresh (refreshed s + count_401 w (length (fetched s)) k) = NewToken t))
         \<and> retryCount + (k - length (fetched s)) < retryAttempts s"
    with st(1) have k: "k = length (fetched s)" by simp
    with h have "fst (try_block w endpoint method data retryCount s) = Replay"
      by (intro try_block_replays) (simp_all add: count_401_empty)
    with Returned show "k + 1 < length (fetched s1)" by simp
  qed
next
  case (Rethrow retryCount s error s1)
  note st = try_block_step [OF Rethrow(1)]
  show ?case
  proof (intro allI impI)
    fix k
    assume h: "length (fetched s) \<le> k \<and> k < length (fetched s1) \<and> is_401 (fetch w k)
         \<and> (\<forall>refresh. refreshToken w = Some refresh \<longrightarrow>
               (\<exists>t. refresh (refreshed s + count_401 w (length (fetched s)) k) = NewToken t))
         \<and> retryCount + (k - length (fetched s)) < retryAttempts s"
    with st(1) have k: "k = length (fetched s)" by simp
    with h have "fst (try_block w endpoint method data retryCount s) = Replay"
      by (intro try_block_replays) (simp_all add: count_401_empty)
    with Rethrow(1) show "k + 1 < length (fetched s1)" by simp
  qed
next
  case (Replay retryCount s s1 res s')
  note st = try_block_step [OF Replay(1)] try_block_retryAttempts [OF Replay(1)]
  from makeRequest_requests [OF Replay(3)] have new: "length (fetched s1) < length (fetched s')"
    by auto
  from st(1) have len: "length (fetched s1) = length (fetched s) + 1" by simp
  show ?case
    by (rule replays_step [OF len st(5) st(6) new Replay(4)])
next
  case (Retry retryCount s error s1 res s')
  note st = try_block_step [OF Retry(1)] try_block_retryAttempts [OF Retry(1)]
  let ?s2 = "s1\<lparr>slept := slept s1 @ [retryDelay s1 * (retryCount + 1)]\<rparr>"
  from makeRequest_requests [OF Retry(4)] have new: "length (fetched ?s2) < length (fetched s')"
    by auto
  have a: "length (fetched ?s2) = length (fetched s) + 1"
    "refreshed ?s2 = refreshed s
         + (if is_401 (fetch w (length (fetched s))) \<and> refreshToken w \<noteq> None then 1 else 0)"
    "retryAttempts ?s2 = retryAttempts s"
    using st by simp_all
  show ?case
    by (rule replays_step [OF a new Retry(5)])
qed

lemma always_401_run:
  "makeRequest always_401 ''/protected-endpoint'' ''GET'' None 0 new_PicnicAPI
   = (Inl (JsError ''Error'' ''Token expired''),
      new_PicnicAPI\<lparr>auth := Some ''new-token-123'', refreshed := 4,
        fetched := [\<lparr>call_url = ''/api/protected-endpoint'', call_method = ''GET'', call_token = None, call_body = None\<rparr>,
                    \<lparr>call_url = ''/api/protected-endpoint'', call_method = ''GET'', call_token = Some ''new-token-123'', call_body = None\<rparr>,
                    \<lparr>call_url = ''/api/protected-endpoint'', call_method = ''GET'', call_token = Some ''new-token-123'', call_body = None\<rparr>,
                    \<lparr>call_url = ''/api/protected-endpoint'', call_method = ''GET'', call_token = Some ''new-token-123'', call_body = None\<rparr>]\<rparr>)"
  by (simp add: makeRequest.simps try_block_def handleAuthError_def always_401_def unauthorized_def
      new_PicnicAPI_def after_auth_check_def http_error_def is_network_error_def Let_def build_options_def)

lemma always_offline_run:
  "makeRequest always_offline ''/test-endpoint'' ''GET'' None 0 new_PicnicAPI
   = (Inl failed_to_fetch,
      new_PicnicAPI\<lparr>slept := [1000, 2000, 3000],
        fetched := [\<lparr>call_url = ''/api/test-endpoint'', call_method = ''GET'', call_token = None, call_body = None\<rparr>,
                    \<lparr>call_url = ''/api/test-endpoint'', call_method = ''GET'', call_token = None, call_body = None\<rparr>,
                    \<lparr>call_url = ''/api/test-endpoint'', call_method = ''GET'', call_token = None, call_body = None\<rparr>,
                    \<lparr>call_url = ''/api/test-endpoint'', call_method = ''GET'', call_token = None, call_body = None\<rparr>]\<rparr>)"
  by (simp add: makeRequest.simps try_block_def handleAuthError_def always_offline_def failed_to_fetch_def
      new_PicnicAPI_def after_auth_check_def http_error_def is_network_error_def Let_def build_options_def)

text \<open>
  One 401, a refresh that succeeds, and a replay that succeeds: the caller gets the replay's
  result, the replay carries the new token, and the new token stays in the client.
\<close>

lemma expired_once_run:
  "makeRequest expired_once ''/protected-endpoint'' ''GET'' None 0 new_PicnicAPI
   = (Inr (JsonObject \<lparr> message = None, documents = None, rest = ''success'' \<rparr>),
      new_PicnicAPI\<lparr>auth := Some ''new-token-123'', refreshed := 1,
        fetched := [\<lparr>call_url = ''/api/protected-endpoint'', call_method = ''GET'', call_token = None, call_body = None\<rparr>,
                    \<lparr>call_url = ''/api/protected-endpoint'', call_method = ''GET'', call_token = Some ''new-token-123'', call_body = None\<rparr>]\<rparr>)"
  by (simp add: makeRequest.simps try_block_def handleAuthError_def expired_once_def unauthorized_def
      success_response_def new_PicnicAPI_def after_auth_check_def Let_def build_options_def)

text \<open>
  A rejection that is not a \<^verbatim>\<open>TypeError\<close> and does not mention \<^verbatim>\<open>fetch\<close> is not retried:
  with the rejections of the repository's integration test \<open>should retry failed
  requests\<close> (\<^verbatim>\<open>new Error('Network error')\<close> twice, then a response), the call throws after
  its first attempt.
\<close>

lemma fails_twice_run:
  "makeRequest fails_twice ''/test-endpoint'' ''GET'' None 0 new_PicnicAPI
   = (Inl network_error,
      new_PicnicAPI\<lparr>fetched := [\<lparr>call_url = ''/api/test-endpoint'', call_method = ''GET'', call_token = None, call_body = None\<rparr>]\<rparr>)"
  by (simp add: makeRequest.simps try_block_def fails_twice_def network_error_def
      new_PicnicAPI_def is_network_error_def Let_def build_options_def)

text \<open>
  Claim C1, as the code has it. Every 401 response calls the token refresh once (when the
  platform offers one), so the number of refreshes of one call is the number of 401
  responses it received, not one; the request is replayed as long as \<open>retryCount\<close> is
  below \<^verbatim>\<open>retryAttempts\<close>, so one call makes at most \<open>retryAttempts + 1\<close> requests. Every
  request of the call is the original one (same URL, method and body), and a 401
  response received while \<open>retryCount\<close> is below \<^verbatim>\<open>retryAttempts\<close> is followed by a
  replay unless the refresh fails. The first request carries the stored token, and each
  later one the token the client holds after the response before it: the token the
  refresh returned when that response was a 401 and the refresh succeeded, the token of
  the request before it otherwise; the token held after the last response stays in the
  client. When every response is a 401 and every refresh succeeds, a call started with
  \<open>retryCount \<le> retryAttempts\<close> makes exactly \<open>retryAttempts - retryCount + 1\<close> requests
  and as many refreshes, and then throws what \<^verbatim>\<open>makeRequest\<close> throws for a response
  that is not \<^verbatim>\<open>ok\<close>: an \<^verbatim>\<open>Error\<close> with the message of the body or the HTTP status
  line, or the \<^verbatim>\<open>TypeError\<close> of reading the message of a \<^verbatim>\<open>null\<close> body.
\<close>

theorem makeRequest_refreshes_on_every_401:
  assumes "makeRequest w endpoint method data retryCount s = (res, s')"
  shows "length (fetched s') \<le> length (fetched s) + (retryAttempts s - retryCount + 1)
     \<and> refreshed s' = refreshed s
         + (if refreshToken w = None then 0
            else count_401 w (length (fetched s)) (length (fetched s')))
     \<and> (\<exists>new. fetched s' = fetched s @ new \<and> 1 \<le> length new
           \<and> (\<forall>c\<in>set new. call_url c = baseUrl s @ endpoint \<and> call_method c = method
                 \<and> call_body c = call_body (build_options s endpoint method data)))
     \<and> call_token (fetched s' ! length (fetched s)) = auth s
     \<and> (\<forall>k. length (fetched s) \<le> k \<and> k + 1 < length (fetched s') \<longrightarrow>
           call_token (fetched s' ! (k + 1))
             = token_after w (refreshed s + count_401 w (length (fetched s)) k) (fetch w k)
                 (call_token (fetched s' ! k)))
     \<and> auth s' = token_after w (refreshed s + count_401 w (length (fetched s)) (length (fetched s') - 1))
                    (fetch w (length (fetched s') - 1))
                    (call_token (fetched s' ! (length (fetched s') - 1)))
     \<and> (\<forall>k. length (fetched s) \<le> k \<and> k < length (fetched s') \<and> is_401 (fetch w k)
           \<and> (\<forall>refresh. refreshToken w = Some refresh \<longrightarrow>
                 (\<exists>t. refresh (refreshed s + count_401 w (length (fetched s)) k) = NewToken t))
           \<and> retryCount + (k - length (fetched s)) < retryAttempts s
          \<longrightarrow> k + 1 < length (fetched s'))
     \<and> ((\<exists>refresh. refreshToken w = Some refresh \<and> (\<forall>k. \<exists>t. refresh k = NewToken t))
          \<and> (\<forall>k. \<exists>r. fetch w k = Resolves r \<and> status r = 401 \<and> \<not> ok r)
          \<and> retryCount \<le> retryAttempts s
        \<longrightarrow> length (fetched s') = length (fetched s) + (retryAttempts s - retryCount + 1)
          \<and> refreshed s' = refreshed s + (retryAttempts s - retryCount + 1)
          \<and> (\<exists>r. fetch w (length (fetched s') - 1) = Resolves r \<and> res = Inl (http_error r)))"
proof (intro conjI)
  from makeRequest_requests [OF assms]
  show "length (fetched s') \<le> length (fetched s) + (retryAttempts s - retryCount + 1)"
    by auto
next
  show "refreshed s' = refreshed s
         + (if refreshToken w = None then 0
            else count_401 w (length (fetched s)) (length (fetched s')))"
    by (rule makeRequest_refreshes [OF assms])
next
  from makeRequest_requests [OF assms]
  show "\<exists>new. fetched s' = fetched s @ new \<and> 1 \<le> length new
           \<and> (\<forall>c\<in>set new. call_url c = baseUrl s @ endpoint \<and> call_method c = method
                 \<and> call_body c = call_body (build_options s endpoint method data))"
    by blast
next
  from makeRequest_tokens [OF assms]
  show "call_token (fetched s' ! length (fetched s)) = auth s" by blast
next
  from makeRequest_tokens [OF assms]
  show "\<forall>k. length (fetched s) \<le> k \<and> k + 1 < length (fetched s') \<longrightarrow>
           call_token (fetched s' ! (k + 1))
             = token_after w (refreshed s + count_401 w (length (fetched s)) k) (fetch w k)
                 (call_token (fetched s' ! k))"
    by blast
next
  from makeRequest_tokens [OF assms]
  show "auth s' = token_after w (refreshed s + count_401 w (length (fetched s)) (length (fetched s') - 1))
                    (fetch w (length (fetched s') - 1))
                    (call_token (fetched s' ! (length (fetched s') - 1)))"
    by blast
next
  show "\<forall>k. length (fetched s) \<le> k \<and> k < length (fetched s') \<and> is_401 (fetch w k)
           \<and> (\<forall>refresh. refreshToken w = Some refresh \<longrightarrow>
                 (\<exists>t. refresh (refreshed s + count_401 w (length (fetched s)) k) = NewToken t))
           \<and> retryCount + (k - length (fetched s)) < retryAttempts s
          \<longrightarrow> k + 1 < length (fetched s')"
    by (rule makeRequest_replays_after_401 [OF assms])
next
  show "(\<exists>refresh. refreshToken w = Some refresh \<and> (\<forall>k. \<exists>t. refresh k = NewToken t))
          \<and> (\<forall>k. \<exists>r. fetch w k = Resolves r \<and> status r = 401 \<and> \<not> ok r)
          \<and> retryCount \<le> retryAttempts s
        \<longrightarrow> length (fetched s') = length (fetched s) + (retryAttempts s - retryCount + 1)
          \<and> refreshed s' = refreshed s + (retryAttempts s - retryCount + 1)
          \<and> (\<exists>r. fetch w (length (fetched s') - 1) = Resolves r \<and> res = Inl (http_error r))"
  proof (intro impI conjI)
  assume h: "(\<exists>refresh. refreshToken w = Some refresh \<and> (\<forall>k. \<exists>t. refresh k = NewToken t))
          \<and> (\<forall>k. \<exists>r. fetch w k = Resolves r \<and> status r = 401 \<and> \<not> ok r)
          \<and> retryCount \<le> retryAttempts s"
  then obtain refresh where r: "refreshToken w = Some refresh" "\<And>k. \<exists>t. refresh k = NewToken t"
    by blast
  from h have u: "\<And>k. \<exists>r. fetch w k = Resolves r \<and> status r = 401 \<and> \<not> ok r"
    and le: "retryCount \<le> retryAttempts s" by blast+
  from makeRequest_all_401 [OF assms r u] le
  have a: "length (fetched s') + retryCount = length (fetched s) + retryAttempts s + 1"
    and b: "refreshed s' + retryCount = refreshed s + retryAttempts s + 1"
    and c: "\<exists>r. fetch w (length (fetched s') - 1) = Resolves r \<and> res = Inl (http_error r)"
    by blast+
  from a le show "length (fetched s') = length (fetched s) + (retryAttempts s - retryCount + 1)"
    by arith
  from b le show "refreshed s' = refreshed s + (retryAttempts s - retryCount + 1)"
    by arith
  from c show "\<exists>r. fetch w (length (fetched s') - 1) = Resolves r \<and> res = Inl (http_error r)" .
  qed
qed

theorem makeRequest_refreshes_on_every_401_witness:
  "(\<exists>refresh. refreshToken always_401 = Some refresh \<and> (\<forall>k. \<exists>t. refresh k = NewToken t))
   \<and> (\<forall>k. \<exists>r. fetch always_401 k = Resolves r \<and> status r = 401 \<and> \<not> ok r)
   \<and> length (fetched (snd (makeRequest always_401 ''/protected-endpoint'' ''GET'' None 0 new_PicnicAPI))) = 4
   \<and> refreshed (snd (makeRequest always_401 ''/protected-endpoint'' ''GET'' None 0 new_PicnicAPI)) = 4
   \<and> fst (makeRequest always_401 ''/protected-endpoint'' ''GET'' None 0 new_PicnicAPI)
       = Inl (http_error unauthorized)
   \<and> call_token (fetched (snd (makeRequest always_401 ''/protected-endpoint'' ''GET'' None 0 new_PicnicAPI)) ! 0)
       = None
   \<and> call_token (fetched (snd (makeRequest always_401 ''/protected-endpoint'' ''GET'' None 0 new_PicnicAPI)) ! 1)
       = Some ''new-token-123''
   \<and> auth (snd (makeRequest always_401 ''/protected-endpoint'' ''GET'' None 0 new_PicnicAPI))
       = Some ''new-token-123''
   \<and> is_401 (fetch always_401 2)
   \<and> 2 + 1 < length (fetched (snd (makeRequest always_401 ''/protected-endpoint'' ''GET'' None 0 new_PicnicAPI)))"
proof -
  let ?run = "makeRequest always_401 ''/protected-endpoint'' ''GET'' None 0 new_PicnicAPI"
  have run: "?run = (fst ?run, snd ?run)" by simp
  have h1: "\<exists>refresh. refreshToken always_401 = Some refresh \<and> (\<forall>k. \<exists>t. refresh k = NewToken t)"
    by (simp add: always_401_def)
  have h2: "\<forall>k. \<exists>r. fetch always_401 k = Resolves r \<and> status r = 401 \<and> \<not> ok r"
    by (simp add: always_401_def unauthorized_def)
  have h3: "(0::nat) \<le> retryAttempts new_PicnicAPI" by simp
  note t = makeRequest_refreshes_on_every_401 [OF run]
  from t h1 h2 h3
  have "length (fetched (snd ?run)) = length (fetched new_PicnicAPI) + (retryAttempts new_PicnicAPI - 0 + 1)
      \<and> refreshed (snd ?run) = refreshed new_PicnicAPI + (retryAttempts new_PicnicAPI - 0 + 1)
      \<and> (\<exists>r. fetch always_401 (length (fetched (snd ?run)) - 1) = Resolves r \<and> fst ?run = Inl (http_error r))"
    by blast
  then have a: "length (fetched (snd ?run)) = 4" "refreshed (snd ?run) = 4"
      "fst ?run = Inl (http_error unauthorized)"
    by (simp_all add: new_PicnicAPI_def always_401_def)
  have tok: "token_after always_401 n (fetch always_401 k) token = Some ''new-token-123''" for n k token
    by (simp add: token_after_def always_401_def is_401_def unauthorized_def)
  from t have b: "call_token (fetched (snd ?run) ! length (fetched new_PicnicAPI)) = auth new_PicnicAPI"
    by blast
  then have b': "call_token (fetched (snd ?run) ! 0) = None" by (simp add: new_PicnicAPI_def)
  from t have "length (fetched new_PicnicAPI) \<le> 0 \<and> 0 + 1 < length (fetched (snd ?run)) \<longrightarrow>
      call_token (fetched (snd ?run) ! (0 + 1))
        = token_after always_401 (refreshed new_PicnicAPI + count_401 always_401 (length (fetched new_PicnicAPI)) 0)
            (fetch always_401 0) (call_token (fetched (snd ?run) ! 0))"
    by blast
  with a(1) have c: "call_token (fetched (snd ?run) ! 1) = Some ''new-token-123''"
    by (simp add: tok new_PicnicAPI_def)
  from t have "auth (snd ?run)
      = token_after always_401
          (refreshed new_PicnicAPI
             + count_401 always_401 (length (fetched new_PicnicAPI)) (length (fetched (snd ?run)) - 1))
          (fetch always_401 (length (fetched (snd ?run)) - 1))
          (call_token (fetched (snd ?run) ! (length (fetched (snd ?run)) - 1)))"
    by blast
  then have d: "auth (snd ?run) = Some ''new-token-123''" by (simp add: tok)
  have e: "is_401 (fetch always_401 k)" for k
    by (simp add: always_401_def is_401_def unauthorized_def)
  from t have "length (fetched new_PicnicAPI) \<le> 2 \<and> 2 < length (fetched (snd ?run))
        \<and> is_401 (fetch always_401 2)
        \<and> (\<forall>refresh. refreshToken always_401 = Some refresh \<longrightarrow>
              (\<exists>t. refresh (refreshed new_PicnicAPI
                       + count_401 always_401 (length (fetched new_PicnicAPI)) 2) = NewToken t))
        \<and> 0 + (2 - length (fetched new_PicnicAPI)) < retryAttempts new_PicnicAPI
      \<longrightarrow> 2 + 1 < length (fetched (snd ?run))"
    by blast
  moreover have "\<forall>refresh. refreshToken always_401 = Some refresh \<longrightarrow>
              (\<exists>t. refresh (refreshed new_PicnicAPI
                       + count_401 always_401 (length (fetched new_PicnicAPI)) 2) = NewToken t)"
    by (auto simp: always_401_def)
  moreover have "length (fetched new_PicnicAPI) \<le> 2"
    "0 + (2 - length (fetched new_PicnicAPI)) < retryAttempts new_PicnicAPI"
    by (simp_all add: new_PicnicAPI_def)
  ultimately have f: "2 + 1 < length (fetched (snd ?run))" using a(1) e by simp
  from h1 h2 a b' c d e f show ?thesis by blast
qed

text \<open>
  Against claim C1 as stated: with a backend that answers every request with a 401 and a
  refresh that always succeeds, one call on a fresh client refreshes the token four times
  and sends the request four times (three replays, each with the new token), not once,
  and what it throws in the end is the \<^verbatim>\<open>Error\<close> made from the last response.
\<close>

theorem single_refresh_counterexample:
  "refreshed (snd (makeRequest always_401 ''/protected-endpoint'' ''GET'' None 0 new_PicnicAPI)) = 4
   \<and> map call_token (fetched (snd (makeRequest always_401 ''/protected-endpoint'' ''GET'' None 0 new_PicnicAPI)))
       = [None, Some ''new-token-123'', Some ''new-token-123'', Some ''new-token-123'']
   \<and> fst (makeRequest always_401 ''/protected-endpoint'' ''GET'' None 0 new_PicnicAPI)
       = Inl (JsError ''Error'' ''Token expired'')"
  by (simp add: always_401_run)

text \<open>
  Claim C3, as the code has it. A call makes at most \<open>retryAttempts + 1\<close> requests (with
  the constructor's value: four attempts, the first and three retries); the delays it
  awaits are \<open>retryDelay * k\<close> for strictly increasing retry numbers \<open>k\<close> between
  \<open>retryCount + 1\<close> and \<open>retryAttempts\<close>. When every \<^verbatim>\<open>fetch\<close> rejects with an error the
  \<^verbatim>\<open>catch\<close> block takes for a network error, a call started with
  \<open>retryCount \<le> retryAttempts\<close> makes exactly \<open>retryAttempts - retryCount + 1\<close> requests,
  awaits \<open>retryDelay * k\<close> before retry \<open>k\<close> for every \<open>k\<close> from \<open>retryCount + 1\<close> to
  \<open>retryAttempts\<close>, and then rethrows the last rejection unchanged.
\<close>

theorem makeRequest_network_retries:
  assumes "makeRequest w endpoint method data retryCount s = (res, s')"
  shows "length (fetched s') \<le> length (fetched s) + (retryAttempts s - retryCount + 1)
     \<and> (\<exists>ks. slept s' = slept s @ map (\<lambda>k. retryDelay s * k) ks \<and> sorted_wrt (<) ks
            \<and> set ks \<subseteq> {retryCount + 1..retryAttempts s})
     \<and> ((\<forall>k. \<exists>error. fetch w k = Rejects error \<and> is_network_error error)
          \<and> retryCount \<le> retryAttempts s
        \<longrightarrow> length (fetched s') = length (fetched s) + (retryAttempts s - retryCount + 1)
          \<and> slept s' = slept s @ map (\<lambda>k. retryDelay s * k) [retryCount + 1..<retryAttempts s + 1]
          \<and> (\<exists>error. res = Inl error \<and> is_network_error error
                \<and> fetch w (length (fetched s') - 1) = Rejects error))"
proof (intro conjI impI)
  from makeRequest_requests [OF assms]
  show "length (fetched s') \<le> length (fetched s) + (retryAttempts s - retryCount + 1)"
    by auto
next
  show "\<exists>ks. slept s' = slept s @ map (\<lambda>k. retryDelay s * k) ks \<and> sorted_wrt (<) ks
            \<and> set ks \<subseteq> {retryCount + 1..retryAttempts s}"
    by (rule makeRequest_sleeps [OF assms])
next
  assume h: "(\<forall>k. \<exists>error. fetch w k = Rejects error \<and> is_network_error error)
          \<and> retryCount \<le> retryAttempts s"
  then have off: "\<And>k. \<exists>error. fetch w k = Rejects error \<and> is_network_error error"
    and le: "retryCount \<le> retryAttempts s" by blast+
  from makeRequest_offline [OF assms off] le
  have a: "length (fetched s') + retryCount = length (fetched s) + retryAttempts s + 1"
    and b: "slept s' = slept s @ map (\<lambda>k. retryDelay s * k) [retryCount + 1..<retryAttempts s + 1]"
    and c: "\<exists>error. res = Inl error \<and> is_network_error error
                \<and> fetch w (length (fetched s') - 1) = Rejects error"
    by blast+
  from a le show "length (fetched s') = length (fetched s) + (retryAttempts s - retryCount + 1)"
    by arith
  from b show "slept s' = slept s @ map (\<lambda>k. retryDelay s * k) [retryCount + 1..<retryAttempts s + 1]" .
  from c show "\<exists>error. res = Inl error \<and> is_network_error error
                \<and> fetch w (length (fetched s') - 1) = Rejects error" .
qed

theorem makeRequest_network_retries_witness:
  "(\<forall>k. \<exists>error. fetch always_offline k = Rejects error \<and> is_network_error error)
   \<and> length (fetched (snd (makeRequest always_offline ''/test-endpoint'' ''GET'' None 0 new_PicnicAPI))) = 4
   \<and> slept (snd (makeRequest always_offline ''/test-endpoint'' ''GET'' None 0 new_PicnicAPI))
       = [1000 * 1, 1000 * 2, 1000 * 3]
   \<and> (\<exists>error. fst (makeRequest always_offline ''/test-endpoint'' ''GET'' None 0 new_PicnicAPI) = Inl error
         \<and> is_network_error error)"
proof -
  let ?run = "makeRequest always_offline ''/test-endpoint'' ''GET'' None 0 new_PicnicAPI"
  have run: "?run = (fst ?run, snd ?run)" by simp
  have h1: "\<forall>k. \<exists>error. fetch always_offline k = Rejects error \<and> is_network_error error"
    by (simp add: always_offline_def failed_to_fetch_def is_network_error_def)
  have h2: "(0::nat) \<le> retryAttempts new_PicnicAPI" by simp
  have u: "[0 + 1..<retryAttempts new_PicnicAPI + 1] = [1, 2, 3]"
    by (simp add: new_PicnicAPI_def upt_conv_Cons)
  from makeRequest_network_retries [OF run] h1 h2
  have "length (fetched (snd ?run)) = length (fetched new_PicnicAPI) + (retryAttempts new_PicnicAPI - 0 + 1)
      \<and> slept (snd ?run) = slept new_PicnicAPI
           @ map (\<lambda>k. retryDelay new_PicnicAPI * k) [0 + 1..<retryAttempts new_PicnicAPI + 1]
      \<and> (\<exists>error. fst ?run = Inl error \<and> is_network_error error
            \<and> fetch always_offline (length (fetched (snd ?run)) - 1) = Rejects error)"
    by blast
  then have "length (fetched (snd ?run)) = 4 \<and> slept (snd ?run) = [1000 * 1, 1000 * 2, 1000 * 3]
      \<and> (\<exists>error. fst ?run = Inl error \<and> is_network_error error)"
    unfolding u by (auto simp: new_PicnicAPI_def)
  with h1 show ?thesis by blast
qed

text \<open>
  Against claim C3 as stated: when every \<^verbatim>\<open>fetch\<close> fails with the browser's
  \<^verbatim>\<open>TypeError: Failed to fetch\<close>, a call on a fresh client makes four attempts, not
  three, and what it throws in the end is that \<^verbatim>\<open>TypeError\<close> itself.
\<close>

theorem three_attempts_counterexample:
  "length (fetched (snd (makeRequest always_offline ''/test-endpoint'' ''GET'' None 0 new_PicnicAPI))) = 4
   \<and> slept (snd (makeRequest always_offline ''/test-endpoint'' ''GET'' None 0 new_PicnicAPI)) = [1000, 2000, 3000]
   \<and> fst (makeRequest always_offline ''/test-endpoint'' ''GET'' None 0 new_PicnicAPI) = Inl failed_to_fetch"
  by (simp add: always_offline_run)

section \<open>Walks over a live Map or Set\<close>

lemma length_Set_delete [simp]: "length (Set_delete x es) = length es"
  by (induction es) auto

lemma length_Map_delete [simp]: "length (Map_delete k es) = length es"
  by (induction k es rule: Map_delete.induct) auto

lemma run_script_frame:
  assumes "run_script as s = (r, s')"
  shows "calls s' = calls s" "ws s' = ws s" "wsReconnectAttempts s' = wsReconnectAttempts s"
    "maxWsReconnectAttempts s' = maxWsReconnectAttempts s" "wsReconnectDelay s' = wsReconnectDelay s"
    "timers s' = timers s"
  using assms
  by (induction as s rule: run_script.induct)
     (auto simp: subscribe_def unsubscribe_def on_def off_def ws_send_def split: option.splits if_splits)

lemma run_script_handlers:
  assumes "run_script as s = (r, s')" "\<forall>a\<in>set as. \<not> changes_handlers a"
  shows "eventHandlers s' = eventHandlers s"
  using assms
  by (induction as s rule: run_script.induct)
     (auto simp: subscribe_def unsubscribe_def ws_send_def split: if_splits)

lemma run_script_handlers_length:
  assumes "run_script as s = (r, s')" "\<forall>a\<in>set as. \<not> adds_handler a"
  shows "length (handlers_of event s') = length (handlers_of event s)"
  using assms
  by (induction as s rule: run_script.induct)
     (auto simp: subscribe_def unsubscribe_def off_def handlers_of_def ws_send_def split: if_splits option.splits)

lemma run_script_subscriptions:
  assumes "run_script as s = (r, s')" "\<forall>a\<in>set as. \<not> changes_subscriptions a"
  shows "subscriptions s' = subscriptions s" "sent s' = sent s"
  using assms
  by (induction as s rule: run_script.induct)
     (auto simp: on_def off_def split: option.splits)


lemma run_script_no_raise:
  assumes "run_script as s = (r, s')" "\<forall>a\<in>set as. \<not> raises a"
  shows "r = Inr ()"
  using assms
  by (induction as s rule: run_script.induct) auto

lemma forEach_invariant:
  assumes run: "forEach entries visit i s = Some (r, s')"
    and start: "I s"
    and step: "\<And>e s r s'. I s \<Longrightarrow> visit e s = (r, s') \<Longrightarrow> I s'"
  shows "I s'"
proof -
  let ?P = "\<lambda>entries visit (i::nat) s y.
    (\<forall>e s r s'. I s \<longrightarrow> visit e s = (r, s') \<longrightarrow> I s') \<longrightarrow> I s \<longrightarrow> I (snd y)"
  have "?P entries visit i s (r, s')"
  proof (rule forEach.raw_induct [where P = ?P, OF _ run], goal_cases)
    case (1 walk entries visit i s y)
    show ?case
    proof (intro impI)
      assume st: "\<forall>e s r s'. I s \<longrightarrow> visit e s = (r, s') \<longrightarrow> I s'" and s: "I s"
      show "I (snd y)"
      proof (cases "i < length (entries s)")
        case False
        with 1(2) s show ?thesis by auto
      next
        case True
        show ?thesis
        proof (cases "entries s ! i")
          case None
          with True 1(2) have "walk entries visit (i + 1) s = Some y" by simp
          from 1(1) [OF this] st s show ?thesis by blast
        next
          case (Some e)
          obtain r1 s1 where v: "visit e s = (r1, s1)" by (cases "visit e s")
          with st s have s1: "I s1" by blast
          show ?thesis
          proof (cases r1)
            case (Inl err)
            with True Some v 1(2) have "y = (Inl err, s1)" by simp
            with s1 show ?thesis by simp
          next
            case (Inr u)
            with True Some v 1(2) have "walk entries visit (i + 1) s1 = Some y" by simp
            from 1(1) [OF this] st s1 show ?thesis by blast
          qed
        qed
      qed
    qed
  qed
  with start step show ?thesis by auto
qed

lemma forEach_error_origin:
  assumes run: "forEach entries visit i s = Some (r, s')"
    and quiet: "\<And>e s. fst (visit e s) = Inr ()"
  shows "r = Inr ()"
proof -
  let ?P = "\<lambda>(entries :: picnic_api \<Rightarrow> 'a option list) visit (i::nat) (s::picnic_api) y.
    (\<forall>e s. fst (visit e s) = Inr ()) \<longrightarrow> fst y = Inr ()"
  have "?P entries visit i s (r, s')"
  proof (rule forEach.raw_induct [where P = ?P, OF _ run], goal_cases)
    case (1 walk entries visit i s y)
    show ?case
    proof (intro impI)
      assume q: "\<forall>e s. fst (visit e s) = Inr ()"
      show "fst y = Inr ()"
      proof (cases "i < length (entries s)")
        case False
        with 1(2) show ?thesis by auto
      next
        case True
        show ?thesis
        proof (cases "entries s ! i")
          case None
          with True 1(2) have "walk entries visit (i + 1) s = Some y" by simp
          from 1(1) [OF this] q show ?thesis by blast
        next
          case (Some e)
          obtain r1 s1 where v: "visit e s = (r1, s1)" by (cases "visit e s")
          with q have "r1 = Inr ()" by (metis fst_conv)
          with True Some v 1(2) have "walk entries visit (i + 1) s1 = Some y" by simp
          from 1(1) [OF this] q show ?thesis by blast
        qed
      qed
    qed
  qed
  with quiet show ?thesis by auto
qed

lemma forEach_terminates:
  assumes len: "\<And>e s r s'. visit e s = (r, s') \<Longrightarrow> length (entries s') = length (entries s)"
  shows "\<exists>y. forEach entries visit i s = Some y"
proof (induction "length (entries s) - i" arbitrary: i s rule: less_induct)
  case less
  show ?case
  proof (cases "i < length (entries s)")
    case False
    then show ?thesis by (subst forEach.simps) simp
  next
    case True
    show ?thesis
    proof (cases "entries s ! i")
      case None
      from True have "length (entries s) - (i + 1) < length (entries s) - i" by simp
      from less [OF this] obtain y where "forEach entries visit (i + 1) s = Some y" by blast
      with True None show ?thesis by (subst forEach.simps) simp
    next
      case (Some e)
      obtain r1 s1 where v: "visit e s = (r1, s1)" by (cases "visit e s")
      from len [OF v] True have "length (entries s1) - (i + 1) < length (entries s) - i" by simp
      from less [OF this] obtain y where y: "forEach entries visit (i + 1) s1 = Some y" by blast
      show ?thesis
      proof (cases r1)
        case (Inl err)
        with True Some v show ?thesis by (subst forEach.simps) simp
      next
        case (Inr u)
        with True Some v y show ?thesis by (subst forEach.simps) simp
      qed
    qed
  qed
qed

lemma live_drop:
  "i < length es \<Longrightarrow> live (drop i es) = (case es ! i of None \<Rightarrow> [] | Some e \<Rightarrow> [e]) @ live (drop (i + 1) es)"
  by (simp add: Cons_nth_drop_Suc [symmetric] split: option.splits)

text \<open>A walk whose visits never throw, leave the entries alone and record calls.\<close>

lemma forEach_static:
  assumes visit: "\<And>e s r s'. visit e s = (r, s') \<Longrightarrow>
      r = Inr () \<and> entries s' = entries s \<and> calls s' = calls s @ g e"
  shows "\<exists>s'. forEach entries visit i s = Some (Inr (), s')
           \<and> calls s' = calls s @ concat (map g (live (drop i (entries s))))"
proof (induction "length (entries s) - i" arbitrary: i s rule: less_induct)
  case less
  show ?case
  proof (cases "i < length (entries s)")
    case False
    then show ?thesis by (subst forEach.simps) simp
  next
    case True
    note ld = live_drop [OF True]
    show ?thesis
    proof (cases "entries s ! i")
      case None
      from True have "length (entries s) - (i + 1) < length (entries s) - i" by simp
      from less [OF this] None True ld show ?thesis by (subst forEach.simps) simp
    next
      case (Some e)
      obtain r1 s1 where v: "visit e s = (r1, s1)" by (cases "visit e s")
      from visit [OF v] have r1: "r1 = Inr ()" and es: "entries s1 = entries s"
        and cs: "calls s1 = calls s @ g e" by simp_all
      from True es have "length (entries s1) - (i + 1) < length (entries s) - i" by simp
      from less [OF this] obtain s' where
        s': "forEach entries visit (i + 1) s1 = Some (Inr (), s')"
        "calls s' = calls s1 @ concat (map g (live (drop (i + 1) (entries s1))))"
        by blast
      have "forEach entries visit i s = Some (Inr (), s')"
        using True Some v r1 s'(1) by (subst forEach.simps) simp
      moreover have "calls s' = calls s @ concat (map g (live (drop i (entries s))))"
        using s'(2) cs es ld Some by simp
      ultimately show ?thesis by blast
    qed
  qed
qed

section \<open>emit and throwing handlers\<close>

lemma invoke_calls:
  "invoke b callback data s = (r, s') \<Longrightarrow> calls s' = calls s @ [(callback, data)]"
  by (auto simp: invoke_def dest: run_script_frame(1))

lemma guarded_result: "fst (guarded b data callback s) = Inr ()"
  by (simp add: guarded_def split: prod.splits sum.splits)

lemma guarded_invoke:
  "guarded b data callback s = (r, s') \<Longrightarrow> \<exists>r'. invoke b callback data s = (r', s')"
  by (auto simp: guarded_def split: prod.splits sum.splits)

lemma emit_no_error:
  assumes "emit b event data s = Some (r, s')"
  shows "r = Inr ()"
proof (cases "eventHandlers s event")
  case None
  with assms show ?thesis by (simp add: emit_def)
next
  case (Some hs)
  with assms have "forEach (handlers_of event) (guarded b data) 0 s = Some (r, s')"
    by (simp add: emit_def)
  then show ?thesis by (rule forEach_error_origin) (rule guarded_result)
qed

lemma emit_invariant:
  assumes run: "emit b event data s = Some (r, s')"
    and start: "I s"
    and step: "\<And>callback s r s'. I s \<Longrightarrow> invoke b callback data s = (r, s') \<Longrightarrow> I s'"
  shows "I s'"
proof (cases "eventHandlers s event")
  case None
  with run start show ?thesis by (simp add: emit_def)
next
  case (Some hs)
  with run have "forEach (handlers_of event) (guarded b data) 0 s = Some (r, s')"
    by (simp add: emit_def)
  then show ?thesis using start
  proof (rule forEach_invariant)
    fix e s r s' assume "I s" "guarded b data e s = (r, s')"
    then show "I s'" using step guarded_invoke by blast
  qed
qed


lemma invoke_handlers_length:
  assumes "never adds_handler b" "invoke b callback data s = (r, s')"
  shows "length (handlers_of event s') = length (handlers_of event s)"
proof -
  from assms(1) have "\<forall>a\<in>set (b callback data s). \<not> adds_handler a" by (simp add: never_def)
  from run_script_handlers_length [OF _ this] assms(2) show ?thesis
    by (simp add: invoke_def handlers_of_def)
qed

lemma emit_terminates:
  assumes "never adds_handler b"
  shows "\<exists>s'. emit b event data s = Some (Inr (), s')"
proof -
  have "\<exists>y. forEach (handlers_of event) (guarded b data) 0 s = Some y"
  proof (rule forEach_terminates)
    fix e s r s' assume "guarded b data e s = (r, s')"
    then obtain r' where "invoke b e data s = (r', s')" using guarded_invoke by blast
    from invoke_handlers_length [OF assms this]
    show "length (handlers_of event s') = length (handlers_of event s)" .
  qed
  then have "\<exists>y. emit b event data s = Some y" by (simp add: emit_def)
  then obtain r s' where "emit b event data s = Some (r, s')" by auto
  with emit_no_error [OF this] show ?thesis by simp
qed

lemma invoke_handlers:
  assumes "never changes_handlers b" "invoke b callback data s = (r, s')"
  shows "eventHandlers s' = eventHandlers s"
proof -
  from assms(1) have "\<forall>a\<in>set (b callback data s). \<not> changes_handlers a" by (simp add: never_def)
  from run_script_handlers [OF _ this] assms(2) show ?thesis
    by (simp add: invoke_def)
qed

lemma concat_singletons: "concat (map (\<lambda>x. [f x]) xs) = map f xs"
  by (induction xs) auto

lemma emit_static:
  assumes "never changes_handlers b"
  shows "\<exists>s'. emit b event data s = Some (Inr (), s')
     \<and> calls s' = calls s @ map (\<lambda>callback. (callback, data)) (live (handlers_of event s))"
proof (cases "eventHandlers s event")
  case None
  then show ?thesis by (simp add: emit_def handlers_of_def)
next
  case (Some hs)
  have "\<exists>s'. forEach (handlers_of event) (guarded b data) 0 s = Some (Inr (), s')
     \<and> calls s' = calls s
          @ concat (map (\<lambda>callback. [(callback, data)]) (live (drop 0 (handlers_of event s))))"
  proof (rule forEach_static)
    fix e s r s' assume g: "guarded b data e s = (r, s')"
    then obtain r' where i: "invoke b e data s = (r', s')" using guarded_invoke by blast
    from g guarded_result [of b data e s] have "r = Inr ()" by simp
    moreover from invoke_handlers [OF assms i] have "handlers_of event s' = handlers_of event s"
      by (simp add: handlers_of_def)
    ultimately show "r = Inr () \<and> handlers_of event s' = handlers_of event s
      \<and> calls s' = calls s @ [(e, data)]"
      using invoke_calls [OF i] by simp
  qed
  with Some show ?thesis by (simp add: emit_def concat_singletons)
qed

text \<open>
  Claim C9. \<^verbatim>\<open>emit\<close> never propagates what a handler throws: whenever it returns, it
  returns normally, and it does return when no handler registers further handlers. When
  the handlers leave the handler sets alone (they may throw, and may subscribe or
  unsubscribe), \<^verbatim>\<open>emit\<close> invokes every handler registered for the event, in registration
  order, each with the data, whichever of them throw.
\<close>

theorem emit_survives_throwing_handlers:
  "(\<forall>r s'. emit b event data s = Some (r, s') \<longrightarrow> r = Inr ())
   \<and> (never adds_handler b \<longrightarrow> (\<exists>s'. emit b event data s = Some (Inr (), s')))
   \<and> (never changes_handlers b \<longrightarrow>
        (\<exists>s'. emit b event data s = Some (Inr (), s')
           \<and> calls s' = calls s @ map (\<lambda>callback. (callback, data)) (live (handlers_of event s))))"
  using emit_no_error emit_terminates emit_static by blast

theorem emit_survives_throwing_handlers_witness:
  "never changes_handlers thrower
   \<and> run_script (thrower 1 PUndefined new_PicnicAPI) new_PicnicAPI
       = (Inl (JsError ''Error'' ''handler failed''), new_PicnicAPI)
   \<and> (\<exists>s'. emit thrower ''test-event'' PUndefined (on ''test-event'' 2 (on ''test-event'' 1 new_PicnicAPI))
              = Some (Inr (), s')
         \<and> calls s' = [(1, PUndefined), (2, PUndefined)])"
proof -
  let ?s = "on ''test-event'' 2 (on ''test-event'' 1 new_PicnicAPI)"
  have n: "never changes_handlers thrower"
    by (simp add: never_def thrower_def)
  have h: "live (handlers_of ''test-event'' ?s) = [1, 2]" "calls ?s = []"
    by (simp_all add: on_def handlers_of_def Set_add_def new_PicnicAPI_def)
  from emit_survives_throwing_handlers [of thrower "''test-event''" PUndefined ?s] n
  have "\<exists>s'. emit thrower ''test-event'' PUndefined ?s = Some (Inr (), s')
     \<and> calls s' = calls ?s @ map (\<lambda>callback. (callback, PUndefined)) (live (handlers_of ''test-event'' ?s))"
    by blast
  then have "\<exists>s'. emit thrower ''test-event'' PUndefined ?s = Some (Inr (), s')
     \<and> calls s' = [(1, PUndefined), (2, PUndefined)]"
    unfolding h by simp
  moreover have "run_script (thrower 1 PUndefined new_PicnicAPI) new_PicnicAPI
       = (Inl (JsError ''Error'' ''handler failed''), new_PicnicAPI)"
    by (simp add: thrower_def)
  ultimately show ?thesis using n by blast
qed

section \<open>The three passes of a dispatch\<close>

lemma dispatch_subscription_calls:
  assumes "dispatch_subscription b m entry s = (r, s')"
  shows "calls s' = calls s @ (if subscription_fires (fst entry) m then [(snd entry, PMessage m)] else [])"
  using assms invoke_calls
  by (cases entry) (auto simp: dispatch_subscription_def split: if_splits)










lemma invoke_subscriptions:
  assumes "never changes_subscriptions b" "invoke b callback data s = (r, s')"
  shows "subscriptions s' = subscriptions s" "sent s' = sent s"
proof -
  from assms(1) have "\<forall>a\<in>set (b callback data s). \<not> changes_subscriptions a" by (simp add: never_def)
  from run_script_subscriptions [OF _ this] assms(2)
  show "subscriptions s' = subscriptions s" "sent s' = sent s"
    by (simp_all add: invoke_def)
qed

lemma invoke_no_raise:
  assumes "never raises b" "invoke b callback data s = (r, s')"
  shows "r = Inr ()"
proof -
  from assms(1) have "\<forall>a\<in>set (b callback data s). \<not> raises a" by (simp add: never_def)
  from run_script_no_raise [OF _ this] assms(2) show ?thesis
    by (simp add: invoke_def)
qed

lemma emit_handlers:
  assumes "never changes_handlers b" "emit b event data s = Some (r, s')"
  shows "eventHandlers s' = eventHandlers s"
  by (rule emit_invariant [OF assms(2), where I = "\<lambda>t. eventHandlers t = eventHandlers s"])
     (simp_all add: invoke_handlers [OF assms(1)])

lemma emit_subscriptions:
  assumes "never changes_subscriptions b" "emit b event data s = Some (r, s')"
  shows "subscriptions s' = subscriptions s \<and> sent s' = sent s"
  by (rule emit_invariant [OF assms(2), where I = "\<lambda>t. subscriptions t = subscriptions s \<and> sent t = sent s"])
     (simp_all add: invoke_subscriptions [OF assms(1)])

lemma concat_filtered:
  "concat (map (\<lambda>e. if P e then [f e] else []) xs) = map f (filter P xs)"
  by (induction xs) auto

lemma dispatch_subscriptions_static:
  assumes sub: "never changes_subscriptions b" and nr: "never raises b"
  shows "\<exists>s'. dispatch_subscriptions b m s = Some (Inr (), s')
     \<and> calls s' = calls s @ expected_subscription_calls m s"
proof -
  let ?g = "\<lambda>e. if subscription_fires (fst e) m then [(snd e, PMessage m)] else []"
  have "\<exists>s'. forEach subscriptions (dispatch_subscription b m) 0 s = Some (Inr (), s')
     \<and> calls s' = calls s @ concat (map ?g (live (drop 0 (subscriptions s))))"
  proof (rule forEach_static)
    fix e t r t' assume d: "dispatch_subscription b m e t = (r, t')"
    have "r = Inr () \<and> subscriptions t' = subscriptions t"
      using d invoke_no_raise [OF nr] invoke_subscriptions(1) [OF sub]
      by (cases e) (auto simp: dispatch_subscription_def split: if_splits)
    with dispatch_subscription_calls [OF d]
    show "r = Inr () \<and> subscriptions t' = subscriptions t \<and> calls t' = calls t @ ?g e" by simp
  qed
  then show ?thesis
    by (simp add: dispatch_subscriptions_def expected_subscription_calls_def concat_filtered)
qed





lemma calls_until_throw_no_raise:
  "never raises b \<Longrightarrow> calls_until_throw b expected s = (Inr (), expected)"
proof (induction expected arbitrary: s)
  case Nil
  then show ?case by simp
next
  case (Cons x expected)
  obtain callback data where x: "x = (callback, data)" by (cases x)
  obtain r1 s1 where inv: "invoke b callback data s = (r1, s1)" by (cases "invoke b callback data s")
  from invoke_no_raise [OF Cons.prems inv] have "r1 = Inr ()" .
  with x inv Cons show ?case by simp
qed

lemma calls_until_throw_prefix:
  "\<exists>rest. expected = snd (calls_until_throw b expected s) @ rest"
proof (induction expected arbitrary: s)
  case Nil
  then show ?case by simp
next
  case (Cons x expected)
  obtain callback data where x: "x = (callback, data)" by (cases x)
  obtain r1 s1 where inv: "invoke b callback data s = (r1, s1)" by (cases "invoke b callback data s")
  show ?case
  proof (cases r1)
    case (Inl err)
    with x inv show ?thesis by simp
  next
    case (Inr u)
    from Cons [of s1] obtain rest where "snd (calls_until_throw b expected s1) @ rest = expected"
      by metis
    with Inr x inv show ?thesis by (intro exI [of _ rest]) (simp add: case_prod_beta)
  qed
qed

lemma calls_until_throw_complete:
  "fst (calls_until_throw b expected s) = Inr () \<Longrightarrow> snd (calls_until_throw b expected s) = expected"
proof (induction expected arbitrary: s)
  case Nil
  then show ?case by simp
next
  case (Cons x expected)
  obtain callback data where x: "x = (callback, data)" by (cases x)
  obtain r1 s1 where inv: "invoke b callback data s = (r1, s1)" by (cases "invoke b callback data s")
  show ?case
  proof (cases r1)
    case (Inl err)
    with x inv Cons.prems show ?thesis by simp
  next
    case (Inr u)
    with x inv Cons.prems have "fst (calls_until_throw b expected s1) = Inr ()"
      by (simp add: case_prod_beta)
    from Cons.IH [OF this] Inr x inv show ?thesis by (simp add: case_prod_beta)
  qed
qed

lemma forEach_until_throw:
  assumes sub: "never changes_subscriptions b"
  shows "\<exists>s'. forEach subscriptions (dispatch_subscription b m) i s
        = Some (fst (calls_until_throw b
             (map (\<lambda>entry. (snd entry, PMessage m))
                (filter (\<lambda>entry. subscription_fires (fst entry) m) (live (drop i (subscriptions s))))) s), s')
     \<and> calls s' = calls s @ snd (calls_until_throw b
             (map (\<lambda>entry. (snd entry, PMessage m))
                (filter (\<lambda>entry. subscription_fires (fst entry) m) (live (drop i (subscriptions s))))) s)"
proof (induction "length (subscriptions s) - i" arbitrary: i s rule: less_induct)
  case less
  let ?E = "\<lambda>i s. map (\<lambda>entry. (snd entry, PMessage m))
                (filter (\<lambda>entry. subscription_fires (fst entry) m) (live (drop i (subscriptions s))))"
  show ?case
  proof (cases "i < length (subscriptions s)")
    case False
    then show ?thesis by (subst forEach.simps) simp
  next
    case True
    note ld = live_drop [OF True]
    from True have dec: "length (subscriptions s) - (i + 1) < length (subscriptions s) - i" by simp
    show ?thesis
    proof (cases "subscriptions s ! i")
      case None
      with less [OF dec] True ld show ?thesis by (subst forEach.simps) simp
    next
      case (Some entry)
      obtain k v where entry: "entry = (k, v)" by (cases entry)
      show ?thesis
      proof (cases "subscription_fires k m")
        case False
        with less [OF dec] True ld Some entry show ?thesis
          by (subst forEach.simps) (simp add: dispatch_subscription_def)
      next
        case fires: True
        obtain r1 s1 where inv: "invoke b v (PMessage m) s = (r1, s1)"
          by (cases "invoke b v (PMessage m) s")
        from invoke_subscriptions(1) [OF sub inv] have same: "subscriptions s1 = subscriptions s" .
        have E: "?E i s = (v, PMessage m) # ?E (i + 1) s1"
          using ld Some entry fires same by simp
        show ?thesis
        proof (cases r1)
          case (Inl err)
          have "forEach subscriptions (dispatch_subscription b m) i s = Some (Inl err, s1)"
            using True Some entry fires inv Inl
            by (subst forEach.simps) (simp add: dispatch_subscription_def)
          moreover have "calls_until_throw b (?E i s) s = (Inl err, [(v, PMessage m)])"
            unfolding E using inv Inl by simp
          ultimately show ?thesis using invoke_calls [OF inv] by simp
        next
          case (Inr u)
          from same True have "length (subscriptions s1) - (i + 1) < length (subscriptions s) - i" by simp
          from less [OF this] obtain s' where
            s': "forEach subscriptions (dispatch_subscription b m) (i + 1) s1
                   = Some (fst (calls_until_throw b (?E (i + 1) s1) s1), s')"
                "calls s' = calls s1 @ snd (calls_until_throw b (?E (i + 1) s1) s1)"
            by blast
          have "forEach subscriptions (dispatch_subscription b m) i s
                   = Some (fst (calls_until_throw b (?E (i + 1) s1) s1), s')"
            using True Some entry fires inv Inr s'(1)
            by (subst forEach.simps) (simp add: dispatch_subscription_def)
          moreover have "calls_until_throw b (?E i s) s
              = (fst (calls_until_throw b (?E (i + 1) s1) s1),
                 (v, PMessage m) # snd (calls_until_throw b (?E (i + 1) s1) s1))"
            unfolding E using inv Inr by (simp split: prod.splits)
          ultimately show ?thesis using invoke_calls [OF inv] s'(2) by simp
        qed
      qed
    qed
  qed
qed

lemma dispatch_subscriptions_until_throw:
  assumes "never changes_subscriptions b"
  shows "\<exists>s'. dispatch_subscriptions b m s
        = Some (fst (calls_until_throw b (expected_subscription_calls m s) s), s')
     \<and> calls s' = calls s @ snd (calls_until_throw b (expected_subscription_calls m s) s)"
  using forEach_until_throw [OF assms, of m 0 s]
  by (simp add: dispatch_subscriptions_def expected_subscription_calls_def)




lemma never_inert: "never kind inert"
  by (simp add: never_def inert_def)

lemma never_weaken: "never changes_handlers b \<Longrightarrow> never adds_handler b"
  "never changes_subscriptions b \<Longrightarrow> never adds_subscription b"
proof -
  have "adds_handler a \<Longrightarrow> changes_handlers a" "adds_subscription a \<Longrightarrow> changes_subscriptions a" for a
    by (cases a; simp)+
  then show "never changes_handlers b \<Longrightarrow> never adds_handler b"
    "never changes_subscriptions b \<Longrightarrow> never adds_subscription b"
    unfolding never_def by blast+
qed



section \<open>The subscriptions map and the net effect of a sequence\<close>

lemma live_keys_Map_set:
  "map fst (live (Map_set k v es))
     = (if k \<in> set (map fst (live es)) then map fst (live es) else map fst (live es) @ [k])"
  by (induction k v es rule: Map_set.induct) auto

lemma Map_get_Map_set: "Map_get k (Map_set k' v es) = (if k = k' then Some v else Map_get k es)"
  by (induction k' v es rule: Map_set.induct) auto

lemma Map_get_None_iff: "Map_get k es = None \<longleftrightarrow> k \<notin> set (map fst (live es))"
  by (induction k es rule: Map_get.induct) auto

lemma live_keys_Map_delete: "map fst (live (Map_delete k es)) = remove1 k (map fst (live es))"
  by (induction k es rule: Map_delete.induct) auto

lemma Map_get_Map_delete_other: "k \<noteq> k' \<Longrightarrow> Map_get k (Map_delete k' es) = Map_get k es"
  by (induction k' es rule: Map_delete.induct) auto

lemma Map_get_Map_delete_same: "Map_wf es \<Longrightarrow> Map_get k (Map_delete k es) = None"
  by (simp add: Map_get_None_iff live_keys_Map_delete Map_wf_def)

lemma Map_get_Map_delete:
  "Map_wf es \<Longrightarrow> Map_get k (Map_delete k' es) = (if k = k' then None else Map_get k es)"
  by (simp add: Map_get_Map_delete_other Map_get_Map_delete_same)

lemma Map_wf_Map_set: "Map_wf es \<Longrightarrow> Map_wf (Map_set k v es)"
  by (simp add: Map_wf_def live_keys_Map_set)

lemma Map_wf_Map_delete: "Map_wf es \<Longrightarrow> Map_wf (Map_delete k es)"
  by (simp add: Map_wf_def live_keys_Map_delete)

lemma subscriptions_subscribe [simp]:
  "subscriptions (subscribe collection callback eventType s)
     = Map_set (subscription_key collection eventType) callback (subscriptions s)"
  by (simp add: subscribe_def ws_send_def)

lemma subscriptions_unsubscribe [simp]:
  "subscriptions (unsubscribe collection eventType s)
     = Map_delete (subscription_key collection eventType) (subscriptions s)"
  by (simp add: unsubscribe_def ws_send_def)

lemma append_at_first_occurrence:
  "x \<notin> set xs \<Longrightarrow> x \<notin> set xs' \<Longrightarrow> xs @ x # ys = xs' @ x # ys' \<longleftrightarrow> xs = xs' \<and> ys = ys'"
proof (induction xs arbitrary: xs')
  case Nil
  then show ?case by (cases xs') auto
next
  case (Cons a xs)
  then show ?case by (cases xs') auto
qed

lemma subscription_key_inj:
  assumes "CHR '':'' \<notin> set c" "CHR '':'' \<notin> set c'" "e \<noteq> Some []" "e' \<noteq> Some []"
  shows "subscription_key c e = subscription_key c' e' \<longleftrightarrow> c = c' \<and> e = e'"
proof (cases e)
  case None
  show ?thesis
  proof (cases e')
    case None
    with \<open>e = None\<close> show ?thesis by (simp add: subscription_key_def)
  next
    case (Some t')
    with assms \<open>e = None\<close> show ?thesis by (auto simp: subscription_key_def)
  qed
next
  case (Some t)
  show ?thesis
  proof (cases e')
    case None
    with assms Some show ?thesis by (auto simp: subscription_key_def)
  next
    case (Some t')
    with assms \<open>e = Some t\<close> show ?thesis
      using append_at_first_occurrence [OF assms(1) assms(2)]
      by (simp add: subscription_key_def)
  qed
qed

lemma run_subscription_ops_net_effect:
  assumes "\<forall>op\<in>set ops. CHR '':'' \<notin> set (op_collection op) \<and> op_eventType op \<noteq> Some []"
    and "Map_wf (subscriptions s)"
    and "\<forall>collection eventType. CHR '':'' \<notin> set collection \<longrightarrow> eventType \<noteq> Some [] \<longrightarrow>
           Map_get (subscription_key collection eventType) (subscriptions s) = A (collection, eventType)"
  shows "Map_wf (subscriptions (run_subscription_ops ops s))
     \<and> (\<forall>collection eventType. CHR '':'' \<notin> set collection \<longrightarrow> eventType \<noteq> Some [] \<longrightarrow>
           Map_get (subscription_key collection eventType) (subscriptions (run_subscription_ops ops s))
             = net_effect ops A (collection, eventType))"
  using assms
proof (induction ops arbitrary: s A)
  case Nil
  then show ?case by (simp add: run_subscription_ops_def net_effect_def)
next
  case (Cons op ops)
  let ?s1 = "apply_subscription_op op s"
  let ?A1 = "net_effect_op op A"
  from Cons.prems(1) have okc: "CHR '':'' \<notin> set (op_collection op)" and oke: "op_eventType op \<noteq> Some []"
    and rest: "\<forall>op\<in>set ops. CHR '':'' \<notin> set (op_collection op) \<and> op_eventType op \<noteq> Some []"
    by simp_all
  have wf1: "Map_wf (subscriptions ?s1)"
    using Cons.prems(2) by (cases op) (simp_all add: Map_wf_Map_set Map_wf_Map_delete)
  have rep1: "\<forall>collection eventType. CHR '':'' \<notin> set collection \<longrightarrow> eventType \<noteq> Some [] \<longrightarrow>
           Map_get (subscription_key collection eventType) (subscriptions ?s1) = ?A1 (collection, eventType)"
  proof (intro allI impI)
    fix collection :: string and eventType :: "string option"
    assume c: "CHR '':'' \<notin> set collection" and e: "eventType \<noteq> Some []"
    with Cons.prems(3) have old: "Map_get (subscription_key collection eventType) (subscriptions s)
        = A (collection, eventType)" by blast
    show "Map_get (subscription_key collection eventType) (subscriptions ?s1) = ?A1 (collection, eventType)"
    proof (cases op)
      case (Subscribe c' cb e')
      with okc oke have "subscription_key collection eventType = subscription_key c' e'
          \<longleftrightarrow> collection = c' \<and> eventType = e'"
        using subscription_key_inj [OF c _ e] by simp
      with Subscribe old show ?thesis by (simp add: Map_get_Map_set)
    next
      case (Unsubscribe c' e')
      with okc oke have "subscription_key collection eventType = subscription_key c' e'
          \<longleftrightarrow> collection = c' \<and> eventType = e'"
        using subscription_key_inj [OF c _ e] by simp
      with Unsubscribe old Cons.prems(2) show ?thesis by (simp add: Map_get_Map_delete)
    qed
  qed
  from Cons.IH [OF rest wf1 rep1] show ?case
    by (simp add: run_subscription_ops_def net_effect_def)
qed

text \<open>
  Claim C5, as the code has it. For every sequence of \<^verbatim>\<open>subscribe\<close> and \<^verbatim>\<open>unsubscribe\<close>
  calls whose collection names contain no \<open>:\<close> and whose event types, when given, are
  not empty, the map ends up with pairwise different keys, and what it holds under the key
  of a (collection, event type) pair is what the net effect of the sequence holds for
  that pair: the last callback registered for it, or nothing after it was unsubscribed.
\<close>

theorem subscriptions_follow_net_effect:
  assumes "\<forall>op\<in>set ops. CHR '':'' \<notin> set (op_collection op) \<and> op_eventType op \<noteq> Some []"
    and "Map_wf (subscriptions s)"
    and "\<forall>collection eventType. CHR '':'' \<notin> set collection \<longrightarrow> eventType \<noteq> Some [] \<longrightarrow>
           Map_get (subscription_key collection eventType) (subscriptions s) = A (collection, eventType)"
  shows "distinct (map fst (live (subscriptions (run_subscription_ops ops s))))
     \<and> (\<forall>collection eventType. CHR '':'' \<notin> set collection \<longrightarrow> eventType \<noteq> Some [] \<longrightarrow>
           Map_get (subscription_key collection eventType) (subscriptions (run_subscription_ops ops s))
             = net_effect ops A (collection, eventType))"
  using run_subscription_ops_net_effect [OF assms] by (simp add: Map_wf_def)

theorem subscriptions_follow_net_effect_witness:
  "map op_collection plain_ops = [''todos'', ''todos'', ''todos'', ''todos'', ''picnics'']
   \<and> Map_wf (subscriptions new_PicnicAPI)
   \<and> live (subscriptions (run_subscription_ops plain_ops new_PicnicAPI)) = [(''todos'', 3), (''picnics'', 4)]
   \<and> Map_get (subscription_key ''todos'' None) (subscriptions (run_subscription_ops plain_ops new_PicnicAPI))
       = net_effect plain_ops Map.empty (''todos'', None)
   \<and> net_effect plain_ops Map.empty (''todos'', None) = Some 3
   \<and> Map_get (subscription_key ''todos'' (Some ''document_deleted''))
         (subscriptions (run_subscription_ops plain_ops new_PicnicAPI))
       = net_effect plain_ops Map.empty (''todos'', Some ''document_deleted'')
   \<and> net_effect plain_ops Map.empty (''todos'', Some ''document_deleted'') = None"
proof -
  have h1: "\<forall>op\<in>set plain_ops. CHR '':'' \<notin> set (op_collection op) \<and> op_eventType op \<noteq> Some []"
    by (simp add: plain_ops_def)
  have h2: "Map_wf (subscriptions new_PicnicAPI)"
    by (simp add: Map_wf_def new_PicnicAPI_def)
  have h3: "\<forall>collection eventType. CHR '':'' \<notin> set collection \<longrightarrow> eventType \<noteq> Some [] \<longrightarrow>
           Map_get (subscription_key collection eventType) (subscriptions new_PicnicAPI)
             = Map.empty (collection, eventType)"
    by (simp add: new_PicnicAPI_def)
  note t = subscriptions_follow_net_effect [OF h1 h2 h3]
  from t have a: "Map_get (subscription_key ''todos'' None) (subscriptions (run_subscription_ops plain_ops new_PicnicAPI))
       = net_effect plain_ops Map.empty (''todos'', None)"
    by simp
  from t have b: "Map_get (subscription_key ''todos'' (Some ''document_deleted''))
         (subscriptions (run_subscription_ops plain_ops new_PicnicAPI))
       = net_effect plain_ops Map.empty (''todos'', Some ''document_deleted'')"
    by simp
  have c: "live (subscriptions (run_subscription_ops plain_ops new_PicnicAPI)) = [(''todos'', 3), (''picnics'', 4)]"
    by (simp add: run_subscription_ops_def plain_ops_def subscription_key_def new_PicnicAPI_def)
  have d: "net_effect plain_ops Map.empty (''todos'', None) = Some 3"
    "net_effect plain_ops Map.empty (''todos'', Some ''document_deleted'') = None"
    by (simp_all add: net_effect_def plain_ops_def)
  have h0: "map op_collection plain_ops = [''todos'', ''todos'', ''todos'', ''todos'', ''picnics'']"
    by (simp add: plain_ops_def)
  from h0 h2 a b c d show ?thesis by blast
qed

text \<open>
  Against claim C5 as stated: the pairs (\<^verbatim>\<open>todos:urgent\<close>, no event type) and
  (\<^verbatim>\<open>todos\<close>, \<^verbatim>\<open>urgent\<close>) are different keys with one callback each in the net effect,
  but they share the map key \<^verbatim>\<open>todos:urgent\<close>: the second registration overwrites the
  first and one callback is left.
\<close>

theorem pair_keys_counterexample:
  "live (subscriptions (run_subscription_ops colliding_ops new_PicnicAPI)) = [(''todos:urgent'', 2)]
   \<and> net_effect colliding_ops Map.empty (''todos:urgent'', None) = Some 1
   \<and> net_effect colliding_ops Map.empty (''todos'', Some ''urgent'') = Some 2"
  by (simp add: run_subscription_ops_def colliding_ops_def net_effect_def subscription_key_def
      new_PicnicAPI_def)

section \<open>Unsubscribing during a dispatch\<close>

lemma shrinks_refl: "shrinks es es"
  by (simp add: shrinks_def list_all2_refl)

lemma shrinks_trans:
  assumes "shrinks a b" "shrinks b c"
  shows "shrinks a c"
proof -
  from assms have len: "length a = length b" "length b = length c"
    by (simp_all add: shrinks_def list_all2_lengthD)
  have "c ! i = a ! i \<or> c ! i = None" if "i < length a" for i
  proof -
    from assms(1) that have "b ! i = a ! i \<or> b ! i = None"
      by (auto simp: shrinks_def list_all2_conv_all_nth)
    moreover from assms(2) that len have "c ! i = b ! i \<or> c ! i = None"
      by (auto simp: shrinks_def list_all2_conv_all_nth)
    ultimately show ?thesis by auto
  qed
  with len show ?thesis by (simp add: shrinks_def list_all2_conv_all_nth)
qed

lemma shrinks_Map_delete: "shrinks es (Map_delete k es)"
  unfolding shrinks_def
  by (induction k es rule: Map_delete.induct) (auto simp: list_all2_refl)

lemma shrinks_length: "shrinks old new \<Longrightarrow> length new = length old"
  by (simp add: shrinks_def list_all2_lengthD)

lemma shrinks_nth: "shrinks old new \<Longrightarrow> i < length old \<Longrightarrow> new ! i = old ! i \<or> new ! i = None"
  unfolding shrinks_def by (drule list_all2_nthD) auto

lemma run_script_shrinks:
  assumes "run_script as s = (r, s')" "\<forall>a\<in>set as. \<not> adds_subscription a"
  shows "shrinks (subscriptions s) (subscriptions s')"
  using assms
proof (induction as s rule: run_script.induct)
  case (3 collection eventType as s)
  then have "shrinks (subscriptions (unsubscribe collection eventType s)) (subscriptions s')" by simp
  with shrinks_Map_delete show ?case by (auto intro: shrinks_trans)
qed (auto simp: shrinks_refl on_def off_def split: option.splits)

lemma invoke_shrinks:
  assumes "never adds_subscription b" "invoke b callback data s = (r, s')"
  shows "shrinks (subscriptions s) (subscriptions s')"
proof -
  from assms(1) have "\<forall>a\<in>set (b callback data s). \<not> adds_subscription a" by (simp add: never_def)
  from run_script_shrinks [OF assms(2) [unfolded invoke_def] this] show ?thesis
    by simp
qed

lemma live_member: "x \<in> set (live es) \<longleftrightarrow> Some x \<in> set es"
  by (induction es rule: live.induct) auto

lemma Map_wf_unique_slot:
  assumes "Map_wf es" "i < length es" "j < length es" "es ! i = Some (k, v)" "es ! j = Some (k, v')"
  shows "i = j"
  using assms
proof (induction es arbitrary: i j)
  case Nil
  then show ?case by simp
next
  case (Cons x xs)
  have tail: "Map_wf xs" using Cons.prems(1) by (cases x) (auto simp: Map_wf_def)
  have absent: "k \<notin> fst ` set (live xs)" if "x = Some (k, u)" for u
    using that Cons.prems(1) by (auto simp: Map_wf_def)
  have inside: "k \<in> fst ` set (live xs)" if "n < length xs" "xs ! n = Some (k, u)" for n u
  proof -
    from that have "Some (k, u) \<in> set xs" by (metis nth_mem)
    then have "(k, u) \<in> set (live xs)" by (simp add: live_member)
    then show ?thesis by force
  qed
  show ?case
  proof (cases i)
    case 0
    show ?thesis
    proof (cases j)
      case 0
      with \<open>i = 0\<close> show ?thesis by simp
    next
      case (Suc j')
      with Cons.prems \<open>i = 0\<close> absent inside show ?thesis by auto
    qed
  next
    case (Suc i')
    show ?thesis
    proof (cases j)
      case 0
      with Cons.prems Suc absent inside show ?thesis by auto
    next
      case (Suc j')
      with Cons.prems \<open>i = Suc i'\<close> Cons.IH [OF tail, of i' j'] show ?thesis by simp
    qed
  qed
qed

lemma shrunk_slot:
  assumes wf: "Map_wf old" and sh: "shrinks old cur" and i: "i < length old"
    and slot: "old ! i = Some (k, v)"
  shows "Map_get k cur \<noteq> None \<longleftrightarrow> cur ! i = Some (k, v)"
proof
  assume "cur ! i = Some (k, v)"
  with i shrinks_length [OF sh] have "Some (k, v) \<in> set cur" by (metis nth_mem)
  then have "(k, v) \<in> set (live cur)" by (simp add: live_member)
  then have "k \<in> set (map fst (live cur))" by force
  then show "Map_get k cur \<noteq> None" by (simp add: Map_get_None_iff)
next
  assume "Map_get k cur \<noteq> None"
  then have "k \<in> set (map fst (live cur))" by (simp add: Map_get_None_iff)
  then obtain u where "(k, u) \<in> set (live cur)" by auto
  then have "Some (k, u) \<in> set cur" by (simp add: live_member)
  then obtain j where j: "j < length cur" "cur ! j = Some (k, u)" by (auto simp: in_set_conv_nth)
  with shrinks_length [OF sh] have j': "j < length old" by simp
  from shrinks_nth [OF sh j'] j have "old ! j = Some (k, u)" by auto
  from Map_wf_unique_slot [OF wf i j' slot this] have "i = j" .
  with j shrinks_nth [OF sh i] slot show "cur ! i = Some (k, v)" by auto
qed

lemma dispatch_subscriptions_from:
  assumes b: "never adds_subscription b" and wf: "Map_wf old"
  shows "shrinks old (subscriptions s) \<Longrightarrow>
    forEach subscriptions (dispatch_subscription b m) i s
      = Some (snapshot_dispatch b m (live (drop i old)) s)"
proof (induction "length old - i" arbitrary: i s rule: less_induct)
  case less
  note sh = less.prems
  note len = shrinks_length [OF sh]
  show ?case
  proof (cases "i < length old")
    case False
    with len show ?thesis by (subst forEach.simps) simp
  next
    case True
    note ld = live_drop [OF True]
    from True have dec: "length old - (i + 1) < length old - i" by simp
    show ?thesis
    proof (cases "old ! i")
      case None
      with shrinks_nth [OF sh True] have "subscriptions s ! i = None" by simp
      with less.hyps [OF dec sh] True len None ld show ?thesis
        by (subst forEach.simps) simp
    next
      case (Some entry)
      obtain k v where entry: "entry = (k, v)" by (cases entry)
      note slot = shrunk_slot [OF wf sh True Some [unfolded entry]]
      show ?thesis
      proof (cases "subscriptions s ! i")
        case None
        with slot have "Map_get k (subscriptions s) = None" by simp
        with less.hyps [OF dec sh] True len None Some entry ld show ?thesis
          by (subst forEach.simps) simp
      next
        case (Some cur)
        with shrinks_nth [OF sh True] \<open>old ! i = Some entry\<close> entry
        have cur: "subscriptions s ! i = Some (k, v)" by simp
        with slot have reg: "Map_get k (subscriptions s) \<noteq> None" by simp
        show ?thesis
        proof (cases "subscription_fires k m")
          case False
          with less.hyps [OF dec sh] True len cur reg \<open>old ! i = Some entry\<close> entry ld show ?thesis
            by (subst forEach.simps) (simp add: dispatch_subscription_def)
        next
          case True
          obtain r1 s1 where inv: "invoke b v (PMessage m) s = (r1, s1)"
            by (cases "invoke b v (PMessage m) s")
          from shrinks_trans [OF sh invoke_shrinks [OF b inv]]
          have sh1: "shrinks old (subscriptions s1)" .
          show ?thesis
          proof (cases r1)
            case (Inl err)
            with \<open>i < length old\<close> len cur reg True inv \<open>old ! i = Some entry\<close> entry ld show ?thesis
              by (subst forEach.simps) (simp add: dispatch_subscription_def)
          next
            case (Inr u)
            with less.hyps [OF dec sh1] \<open>i < length old\<close> len cur reg True inv
              \<open>old ! i = Some entry\<close> entry ld
            show ?thesis
              by (subst forEach.simps) (simp add: dispatch_subscription_def)
          qed
        qed
      qed
    qed
  qed
qed

lemma snapshot_dispatch_no_raise:
  "never raises b \<Longrightarrow> fst (snapshot_dispatch b m snapshot s) = Inr ()"
proof (induction snapshot arbitrary: s)
  case Nil
  then show ?case by simp
next
  case (Cons entry snapshot)
  obtain r1 s1 where inv: "invoke b (snd entry) (PMessage m) s = (r1, s1)"
    by (cases "invoke b (snd entry) (PMessage m) s")
  from invoke_no_raise [OF Cons.prems inv] have "r1 = Inr ()" .
  with inv Cons show ?case by simp
qed

text \<open>
  Claim C8. With callbacks that register no new subscription (they may unsubscribe any
  key, their own included, and may throw), the client's walk over the live
  \<^verbatim>\<open>subscriptions\<close> map does what the dispatch over a snapshot does that skips every
  entry removed before its turn: it returns, and throws only what a callback throws, so
  nothing when no callback throws. A key removed by \<^verbatim>\<open>unsubscribe\<close> is no longer among
  the entries, so later dispatches do not visit it.
\<close>

theorem unsubscribe_during_dispatch:
  assumes "Map_wf (subscriptions s)" "never adds_subscription b"
  shows "dispatch_subscriptions b m s = Some (snapshot_dispatch b m (live (subscriptions s)) s)
     \<and> (never raises b \<longrightarrow> fst (snapshot_dispatch b m (live (subscriptions s)) s) = Inr ())
     \<and> subscription_key collection eventType
          \<notin> fst ` set (live (subscriptions (unsubscribe collection eventType s)))"
proof (intro conjI impI)
  from dispatch_subscriptions_from [OF assms(2,1) shrinks_refl, where m = m and i = 0]
  show "dispatch_subscriptions b m s = Some (snapshot_dispatch b m (live (subscriptions s)) s)"
    by (simp add: dispatch_subscriptions_def)
next
  assume "never raises b"
  then show "fst (snapshot_dispatch b m (live (subscriptions s)) s) = Inr ()"
    by (rule snapshot_dispatch_no_raise)
next
  from assms(1) have "Map_get (subscription_key collection eventType)
      (subscriptions (unsubscribe collection eventType s)) = None"
    by (simp add: Map_get_Map_delete_same)
  then show "subscription_key collection eventType
          \<notin> fst ` set (live (subscriptions (unsubscribe collection eventType s)))"
    by (simp add: Map_get_None_iff)
qed

theorem unsubscribe_during_dispatch_witness:
  "Map_wf (subscriptions two_todo_subscribers) \<and> never adds_subscription unsubscribes_other
   \<and> never raises unsubscribes_other
   \<and> live (subscriptions two_todo_subscribers) = [(''todos:document_deleted'', 2), (''todos'', 1)]
   \<and> (\<exists>s'. dispatch_subscriptions unsubscribes_other deleted_todo two_todo_subscribers
              = Some (Inr (), s')
         \<and> calls s' = [(2, PMessage deleted_todo)]
         \<and> live (subscriptions s') = [(''todos:document_deleted'', 2)])"
proof -
  have l: "live (subscriptions two_todo_subscribers) = [(''todos:document_deleted'', 2), (''todos'', 1)]"
    by (simp add: two_todo_subscribers_def subscription_key_def new_PicnicAPI_def)
  then have h1: "Map_wf (subscriptions two_todo_subscribers)"
    by (simp add: Map_wf_def)
  have h2: "never adds_subscription unsubscribes_other" "never raises unsubscribes_other"
    by (simp_all add: never_def unsubscribes_other_def)
  have f: "subscription_fires ''todos:document_deleted'' deleted_todo"
    by (simp add: subscription_fires_def deleted_todo_def)
  have e: "snapshot_dispatch unsubscribes_other deleted_todo
      [(''todos:document_deleted'', 2), (''todos'', 1)] two_todo_subscribers
    = (Inr (), two_todo_subscribers\<lparr>calls := [(2, PMessage deleted_todo)],
         subscriptions := [Some (''todos:document_deleted'', 2), None]\<rparr>)"
    by (simp add: f invoke_def unsubscribes_other_def unsubscribe_def ws_send_def
        two_todo_subscribers_def subscribe_def subscription_key_def new_PicnicAPI_def)
  from unsubscribe_during_dispatch [OF h1 h2(1), of deleted_todo]
  have "dispatch_subscriptions unsubscribes_other deleted_todo two_todo_subscribers
      = Some (snapshot_dispatch unsubscribes_other deleted_todo
          (live (subscriptions two_todo_subscribers)) two_todo_subscribers)"
    by blast
  then have "\<exists>s'. dispatch_subscriptions unsubscribes_other deleted_todo two_todo_subscribers
              = Some (Inr (), s')
         \<and> calls s' = [(2, PMessage deleted_todo)]
         \<and> live (subscriptions s') = [(''todos:document_deleted'', 2)]"
    unfolding l e by simp
  with l h1 h2 show ?thesis by blast
qed

section \<open>Which subscriptions a message fires\<close>

lemma split_colon_colon_free: "CHR '':'' \<notin> set c \<Longrightarrow> split_colon c = [c]"
  by (induction c) auto

lemma split_colon_at_first_colon:
  "CHR '':'' \<notin> set c \<Longrightarrow> split_colon (c @ CHR '':'' # e) = c # split_colon e"
  by (induction c) auto

lemma subscription_fires_key:
  assumes "CHR '':'' \<notin> set collection" "\<forall>t. eventType = Some t \<longrightarrow> CHR '':'' \<notin> set t"
  shows "subscription_fires (subscription_key collection eventType) m
     \<longleftrightarrow> msg_collection m = Some collection
         \<and> (eventType = None \<or> eventType = Some [] \<or> eventType = Some (msg_type m))"
proof (cases eventType)
  case None
  with assms show ?thesis
    by (simp add: subscription_fires_def subscription_key_def split_colon_colon_free)
next
  case (Some t)
  show ?thesis
  proof (cases "t = []")
    case True
    with Some assms show ?thesis
      by (simp add: subscription_fires_def subscription_key_def split_colon_colon_free)
  next
    case False
    from Some assms have "CHR '':'' \<notin> set t" by simp
    with assms(1) have "split_colon (collection @ CHR '':'' # t) = [collection, t]"
      by (simp add: split_colon_at_first_colon split_colon_colon_free)
    with Some False show ?thesis
      by (auto simp: subscription_fires_def subscription_key_def)
  qed
qed

lemma snapshot_dispatch_calls:
  "\<exists>made. calls (snd (snapshot_dispatch b m snapshot s)) = calls s @ made
     \<and> set made \<subseteq> set (map (\<lambda>entry. (snd entry, PMessage m))
                         (filter (\<lambda>entry. subscription_fires (fst entry) m) snapshot))"
proof (induction snapshot arbitrary: s)
  case Nil
  then show ?case by simp
next
  case (Cons entry snapshot)
  let ?X = "\<lambda>snapshot. set (map (\<lambda>entry. (snd entry, PMessage m))
                         (filter (\<lambda>entry. subscription_fires (fst entry) m) snapshot))"
  show ?case
  proof (cases "Map_get (fst entry) (subscriptions s) \<noteq> None \<and> subscription_fires (fst entry) m")
    case False
    from Cons [of s] obtain made where
      "calls (snd (snapshot_dispatch b m snapshot s)) = calls s @ made" "set made \<subseteq> ?X snapshot"
      by blast
    with False show ?thesis by auto
  next
    case True
    obtain r1 s1 where inv: "invoke b (snd entry) (PMessage m) s = (r1, s1)"
      by (cases "invoke b (snd entry) (PMessage m) s")
    note c1 = invoke_calls [OF inv]
    show ?thesis
    proof (cases r1)
      case (Inl err)
      with True inv c1 show ?thesis by simp
    next
      case (Inr u)
      from Cons [of s1] obtain made where
        made: "calls (snd (snapshot_dispatch b m snapshot s1)) = calls s1 @ made" "set made \<subseteq> ?X snapshot"
        by blast
      have "calls (snd (snapshot_dispatch b m (entry # snapshot) s))
          = calls s @ ((snd entry, PMessage m) # made)"
        using True inv Inr made(1) c1 by simp
      moreover have "set ((snd entry, PMessage m) # made) \<subseteq> ?X (entry # snapshot)"
        using True made(2) by auto
      ultimately show ?thesis by blast
    qed
  qed
qed

lemma dispatch_subscriptions_only_firing:
  assumes "Map_wf (subscriptions s)" "never adds_subscription b"
  shows "\<exists>r s' made. dispatch_subscriptions b m s = Some (r, s') \<and> calls s' = calls s @ made
     \<and> set made \<subseteq> set (expected_subscription_calls m s)"
proof -
  let ?y = "snapshot_dispatch b m (live (subscriptions s)) s"
  from dispatch_subscriptions_from [OF assms(2,1) shrinks_refl, where m = m and i = 0]
  have "dispatch_subscriptions b m s = Some (fst ?y, snd ?y)"
    by (simp add: dispatch_subscriptions_def)
  with snapshot_dispatch_calls [of b m "live (subscriptions s)" s] show ?thesis
    unfolding expected_subscription_calls_def by blast
qed

text \<open>
  Claim C7, as the code has it. A subscription registered with a collection name and an
  event type that contain no \<open>:\<close> is stored under a key that fires exactly for the
  messages of that collection whose type is the subscription's event type, or for all
  messages of that collection when the event type is absent or empty; when the walk
  comes to its entry, the callback is invoked with the whole message if the key fires and
  nothing happens otherwise, whatever the callbacks do. With callbacks that register no
  new subscription, the subscription pass returns and invokes only callbacks of entries
  whose key fires. With callbacks that leave the subscriptions alone, it invokes the
  callbacks of the entries whose key fires, in registration order, up to and including
  the first that throws (the pass has no \<^verbatim>\<open>try\<close>/\<^verbatim>\<open>catch\<close>) and propagates what that
  one throws: the calls made are a prefix of the expected ones, and all of them when the
  outcome is normal, as it is when no callback throws.
\<close>

theorem subscription_fires_for_its_collection_and_type:
  "(CHR '':'' \<notin> set collection \<and> (\<forall>t. eventType = Some t \<longrightarrow> CHR '':'' \<notin> set t) \<longrightarrow>
      Map_get (subscription_key collection eventType)
          (subscriptions (subscribe collection callback eventType s)) = Some callback
      \<and> (subscription_fires (subscription_key collection eventType) m
           \<longleftrightarrow> msg_collection m = Some collection
               \<and> (eventType = None \<or> eventType = Some [] \<or> eventType = Some (msg_type m)))
      \<and> dispatch_subscription b m (subscription_key collection eventType, callback) s
          = (if msg_collection m = Some collection
                \<and> (eventType = None \<or> eventType = Some [] \<or> eventType = Some (msg_type m))
             then invoke b callback (PMessage m) s else (Inr (), s)))
   \<and> (Map_wf (subscriptions s) \<and> never adds_subscription b \<longrightarrow>
        (\<exists>r s' made. dispatch_subscriptions b m s = Some (r, s') \<and> calls s' = calls s @ made
           \<and> set made \<subseteq> set (expected_subscription_calls m s)))
   \<and> (never changes_subscriptions b \<longrightarrow>
        (\<exists>s'. dispatch_subscriptions b m s
                 = Some (fst (calls_until_throw b (expected_subscription_calls m s) s), s')
           \<and> calls s' = calls s @ snd (calls_until_throw b (expected_subscription_calls m s) s)))
   \<and> (\<exists>rest. expected = snd (calls_until_throw b expected t) @ rest)
   \<and> (fst (calls_until_throw b expected t) = Inr () \<longrightarrow>
        snd (calls_until_throw b expected t) = expected)
   \<and> (never changes_subscriptions b \<and> never raises b \<longrightarrow>
        (\<exists>s'. dispatch_subscriptions b m s = Some (Inr (), s')
           \<and> calls s' = calls s
               @ map (\<lambda>entry. (snd entry, PMessage m))
                   (filter (\<lambda>entry. subscription_fires (fst entry) m) (live (subscriptions s)))))"
proof (intro conjI impI)
  show "Map_get (subscription_key collection eventType)
          (subscriptions (subscribe collection callback eventType s)) = Some callback"
    by (simp add: Map_get_Map_set)
next
  assume "CHR '':'' \<notin> set collection \<and> (\<forall>t. eventType = Some t \<longrightarrow> CHR '':'' \<notin> set t)"
  then show "subscription_fires (subscription_key collection eventType) m
           \<longleftrightarrow> msg_collection m = Some collection
               \<and> (eventType = None \<or> eventType = Some [] \<or> eventType = Some (msg_type m))"
    using subscription_fires_key by blast
next
  assume "CHR '':'' \<notin> set collection \<and> (\<forall>t. eventType = Some t \<longrightarrow> CHR '':'' \<notin> set t)"
  then have "subscription_fires (subscription_key collection eventType) m
           \<longleftrightarrow> msg_collection m = Some collection
               \<and> (eventType = None \<or> eventType = Some [] \<or> eventType = Some (msg_type m))"
    using subscription_fires_key by blast
  then show "dispatch_subscription b m (subscription_key collection eventType, callback) s
          = (if msg_collection m = Some collection
                \<and> (eventType = None \<or> eventType = Some [] \<or> eventType = Some (msg_type m))
             then invoke b callback (PMessage m) s else (Inr (), s))"
    by (simp add: dispatch_subscription_def)
next
  assume "Map_wf (subscriptions s) \<and> never adds_subscription b"
  then show "\<exists>r s' made. dispatch_subscriptions b m s = Some (r, s') \<and> calls s' = calls s @ made
           \<and> set made \<subseteq> set (expected_subscription_calls m s)"
    using dispatch_subscriptions_only_firing by blast
next
  assume "never changes_subscriptions b"
  then show "\<exists>s'. dispatch_subscriptions b m s
                 = Some (fst (calls_until_throw b (expected_subscription_calls m s) s), s')
           \<and> calls s' = calls s @ snd (calls_until_throw b (expected_subscription_calls m s) s)"
    by (rule dispatch_subscriptions_until_throw)
next
  show "\<exists>rest. expected = snd (calls_until_throw b expected t) @ rest"
    by (rule calls_until_throw_prefix)
next
  assume "fst (calls_until_throw b expected t) = Inr ()"
  then show "snd (calls_until_throw b expected t) = expected"
    by (rule calls_until_throw_complete)
next
  assume "never changes_subscriptions b \<and> never raises b"
  then show "\<exists>s'. dispatch_subscriptions b m s = Some (Inr (), s')
           \<and> calls s' = calls s
               @ map (\<lambda>entry. (snd entry, PMessage m))
                   (filter (\<lambda>entry. subscription_fires (fst entry) m) (live (subscriptions s)))"
    using dispatch_subscriptions_static [of b m s]
    by (simp add: expected_subscription_calls_def)
qed

theorem subscription_fires_for_its_collection_and_type_witness:
  "CHR '':'' \<notin> set ''todos'' \<and> never changes_subscriptions inert \<and> never raises inert
   \<and> subscription_fires (subscription_key ''todos'' None) deleted_todo
   \<and> \<not> subscription_fires (subscription_key ''picnics'' None) deleted_todo
   \<and> (\<exists>s'. dispatch_subscriptions inert deleted_todo todos_and_picnics_client = Some (Inr (), s')
         \<and> calls s' = [(7, PMessage deleted_todo)])
   \<and> never changes_subscriptions thrower
   \<and> live (subscriptions todos_then_thrower_client)
       = [(''picnics'', 8), (''todos'', 7), (''todos:document_deleted'', 1)]
   \<and> (\<exists>s'. dispatch_subscriptions thrower deleted_todo todos_then_thrower_client
              = Some (Inl (JsError ''Error'' ''handler failed''), s')
         \<and> calls s' = [(7, PMessage deleted_todo), (1, PMessage deleted_todo)])"
proof -
  have c: "CHR '':'' \<notin> set ''todos''" "CHR '':'' \<notin> set ''picnics''" by simp_all
  have e: "\<forall>t. (None :: string option) = Some t \<longrightarrow> CHR '':'' \<notin> set t" by simp
  note t = subscription_fires_for_its_collection_and_type
  from t [where collection = "''todos''" and eventType = None and m = deleted_todo] c e
  have f1: "subscription_fires (subscription_key ''todos'' None) deleted_todo"
    by (simp add: deleted_todo_def)
  from t [where collection = "''picnics''" and eventType = None and m = deleted_todo] c e
  have f2: "\<not> subscription_fires (subscription_key ''picnics'' None) deleted_todo"
    by (simp add: deleted_todo_def)
  have l: "live (subscriptions todos_and_picnics_client) = [(''picnics'', 8), (''todos'', 7)]"
    "calls todos_and_picnics_client = []"
    by (simp_all add: todos_and_picnics_client_def subscription_key_def new_PicnicAPI_def
        subscribe_def ws_send_def)
  have k: "subscription_key ''todos'' None = ''todos''" "subscription_key ''picnics'' None = ''picnics''"
    by (simp_all add: subscription_key_def)
  from t [where b = inert and m = deleted_todo and s = todos_and_picnics_client] never_inert
  have "\<exists>s'. dispatch_subscriptions inert deleted_todo todos_and_picnics_client = Some (Inr (), s')
           \<and> calls s' = calls todos_and_picnics_client
               @ map (\<lambda>entry. (snd entry, PMessage deleted_todo))
                   (filter (\<lambda>entry. subscription_fires (fst entry) deleted_todo)
                      (live (subscriptions todos_and_picnics_client)))"
    by blast
  then have a: "\<exists>s'. dispatch_subscriptions inert deleted_todo todos_and_picnics_client = Some (Inr (), s')
         \<and> calls s' = [(7, PMessage deleted_todo)]"
    unfolding l using f1 f2 by (simp add: k)
  have n: "never changes_subscriptions thrower" by (simp add: never_def thrower_def)
  have l2: "live (subscriptions todos_then_thrower_client)
       = [(''picnics'', 8), (''todos'', 7), (''todos:document_deleted'', 1)]"
    "calls todos_then_thrower_client = []"
    by (simp_all add: todos_then_thrower_client_def todos_and_picnics_client_def subscription_key_def
        new_PicnicAPI_def subscribe_def ws_send_def)
  have f3: "subscription_fires ''todos:document_deleted'' deleted_todo"
    by (simp add: subscription_fires_def deleted_todo_def)
  have x: "expected_subscription_calls deleted_todo todos_then_thrower_client
      = [(7, PMessage deleted_todo), (1, PMessage deleted_todo)]"
    unfolding expected_subscription_calls_def l2 using f1 f2 f3 by (simp add: k)
  have u: "calls_until_throw thrower [(7, PMessage deleted_todo), (1, PMessage deleted_todo)]
        todos_then_thrower_client
      = (Inl (JsError ''Error'' ''handler failed''), [(7, PMessage deleted_todo), (1, PMessage deleted_todo)])"
    by (simp add: invoke_def thrower_def)
  from t [where b = thrower and m = deleted_todo and s = todos_then_thrower_client] n
  have "\<exists>s'. dispatch_subscriptions thrower deleted_todo todos_then_thrower_client
                 = Some (fst (calls_until_throw thrower
                      (expected_subscription_calls deleted_todo todos_then_thrower_client)
                      todos_then_thrower_client), s')
           \<and> calls s' = calls todos_then_thrower_client
               @ snd (calls_until_throw thrower
                      (expected_subscription_calls deleted_todo todos_then_thrower_client)
                      todos_then_thrower_client)"
    by blast
  then have b: "\<exists>s'. dispatch_subscriptions thrower deleted_todo todos_then_thrower_client
              = Some (Inl (JsError ''Error'' ''handler failed''), s')
         \<and> calls s' = [(7, PMessage deleted_todo), (1, PMessage deleted_todo)]"
    unfolding x u l2 by simp
  from c f1 f2 a n l2(1) b never_inert show ?thesis by blast
qed

text \<open>
  Against claim C7 as stated: a callback subscribed to the collection named
  \<^verbatim>\<open>todos:document_deleted\<close> is invoked for a message of the collection \<^verbatim>\<open>todos\<close>, and
  is not invoked for a message of its own collection; and the callback registered by
  \<^verbatim>\<open>subscribe('todos', cb)\<close> is not invoked for a message of the collection \<^verbatim>\<open>todos\<close>
  when the callback of a subscription that fires before it throws.
\<close>

theorem other_collection_counterexample:
  "map_option (calls \<circ> snd) (handleWebSocketMessage inert deleted_todo colon_client)
     = Some [(9, PMessage deleted_todo)]
   \<and> map_option (calls \<circ> snd)
       (handleWebSocketMessage inert (deleted_todo\<lparr>msg_collection := Some ''todos:document_deleted''\<rparr>)
          colon_client) = Some []
   \<and> Map_get (subscription_key ''todos'' None) (subscriptions throwing_first_client) = Some 2
   \<and> map_option (\<lambda>y. (fst y, calls (snd y)))
       (handleWebSocketMessage thrower deleted_todo throwing_first_client)
     = Some (Inl (JsError ''Error'' ''handler failed''), [(1, PMessage deleted_todo)])"
  by (simp add: handleWebSocketMessage_def emit_def emit_collection_event_def dispatch_subscriptions_def
      dispatch_subscription_def forEach.simps invoke_def inert_def thrower_def colon_client_def
      throwing_first_client_def subscribe_def
      ws_send_def subscription_key_def subscription_fires_def new_PicnicAPI_def deleted_todo_def)

section \<open>Socket open\<close>

lemma invoke_frame:
  assumes "invoke b callback data s = (r, s')"
  shows "ws s' = ws s" "wsReconnectAttempts s' = wsReconnectAttempts s"
    "maxWsReconnectAttempts s' = maxWsReconnectAttempts s" "wsReconnectDelay s' = wsReconnectDelay s"
    "timers s' = timers s"
  using run_script_frame [OF assms [unfolded invoke_def]] by simp_all

lemma emit_frame:
  assumes "emit b event data s = Some (r, s')"
  shows "ws s' = ws s \<and> wsReconnectAttempts s' = wsReconnectAttempts s
     \<and> maxWsReconnectAttempts s' = maxWsReconnectAttempts s
     \<and> wsReconnectDelay s' = wsReconnectDelay s \<and> timers s' = timers s"
  by (rule emit_invariant [OF assms, where I = "\<lambda>t. ws t = ws s
        \<and> wsReconnectAttempts t = wsReconnectAttempts s
        \<and> maxWsReconnectAttempts t = maxWsReconnectAttempts s
        \<and> wsReconnectDelay t = wsReconnectDelay s \<and> timers t = timers s"])
     (simp_all add: invoke_frame)

text \<open>
  Claim C2, as the code has it. The \<^verbatim>\<open>onopen\<close> handler sets the reconnect-attempt counter
  to zero and emits \<^verbatim>\<open>ws:connected\<close> to the handlers registered for it, each called
  without data; it sends no frame of its own: unless one of those handlers subscribes or
  unsubscribes, nothing is sent and the subscriptions are as before.
\<close>

theorem ws_onopen_resets_and_notifies:
  "(\<forall>r s'. ws_onopen b s = Some (r, s') \<longrightarrow>
      r = Inr () \<and> ws s' = Some OPEN \<and> wsReconnectAttempts s' = 0
      \<and> (never changes_subscriptions b \<longrightarrow> sent s' = sent s \<and> subscriptions s' = subscriptions s))
   \<and> (never adds_handler b \<longrightarrow> (\<exists>s'. ws_onopen b s = Some (Inr (), s')))
   \<and> (never changes_handlers b \<longrightarrow>
        (\<exists>s'. ws_onopen b s = Some (Inr (), s')
           \<and> calls s' = calls s
               @ map (\<lambda>callback. (callback, PUndefined)) (live (handlers_of ''ws:connected'' s))))"
proof (intro conjI allI impI)
  fix r s' assume run: "ws_onopen b s = Some (r, s')"
  let ?s0 = "s\<lparr>ws := Some OPEN, wsReconnectAttempts := 0\<rparr>"
  from run have e: "emit b ''ws:connected'' PUndefined ?s0 = Some (r, s')"
    by (simp add: ws_onopen_def)
  from emit_no_error [OF e] show "r = Inr ()" .
  from emit_frame [OF e] show "ws s' = Some OPEN" "wsReconnectAttempts s' = 0" by simp_all
  assume "never changes_subscriptions b"
  from emit_subscriptions [OF this e] show "sent s' = sent s" "subscriptions s' = subscriptions s"
    by simp_all
next
  assume "never adds_handler b"
  from emit_terminates [OF this] show "\<exists>s'. ws_onopen b s = Some (Inr (), s')"
    by (simp add: ws_onopen_def)
next
  assume "never changes_handlers b"
  from emit_static [OF this, of "''ws:connected''" PUndefined "s\<lparr>ws := Some OPEN, wsReconnectAttempts := 0\<rparr>"]
  show "\<exists>s'. ws_onopen b s = Some (Inr (), s')
           \<and> calls s' = calls s
               @ map (\<lambda>callback. (callback, PUndefined)) (live (handlers_of ''ws:connected'' s))"
    by (simp add: ws_onopen_def handlers_of_def)
qed

theorem ws_onopen_resets_and_notifies_witness:
  "never changes_subscriptions inert \<and> never adds_handler inert \<and> never changes_handlers inert
   \<and> live (subscriptions waiting_client) = [(''todos'', 7)]
   \<and> (\<exists>s'. ws_onopen inert waiting_client = Some (Inr (), s')
         \<and> wsReconnectAttempts s' = 0 \<and> sent s' = [] \<and> calls s' = [(5, PUndefined)])"
proof -
  have w: "live (subscriptions waiting_client) = [(''todos'', 7)]" "sent waiting_client = []"
    "calls waiting_client = []" "live (handlers_of ''ws:connected'' waiting_client) = [5]"
    by (simp_all add: waiting_client_def connectWebSocket_def subscribe_def ws_send_def on_def
        handlers_of_def Set_add_def subscription_key_def new_PicnicAPI_def)
  note t = ws_onopen_resets_and_notifies [of inert waiting_client]
  from t never_inert obtain s' where s': "ws_onopen inert waiting_client = Some (Inr (), s')"
    "calls s' = calls waiting_client
       @ map (\<lambda>callback. (callback, PUndefined)) (live (handlers_of ''ws:connected'' waiting_client))"
    by blast
  from t s'(1) never_inert have "wsReconnectAttempts s' = 0" "sent s' = sent waiting_client"
    by blast+
  with s' w have "ws_onopen inert waiting_client = Some (Inr (), s')
         \<and> wsReconnectAttempts s' = 0 \<and> sent s' = [] \<and> calls s' = [(5, PUndefined)]"
    by simp
  with w never_inert show ?thesis by blast
qed

text \<open>
  Against claim C2 as stated: a client with a subscription to \<^verbatim>\<open>todos\<close> registered
  while the socket was not open gets its socket opened, and no \<^verbatim>\<open>subscribe\<close> frame is
  sent for it.
\<close>

theorem no_resubscribe_counterexample:
  "live (subscriptions waiting_client) = [(''todos'', 7)]
   \<and> sent waiting_client = []
   \<and> map_option (sent \<circ> snd) (ws_onopen inert waiting_client) = Some []"
  by (simp add: waiting_client_def connectWebSocket_def subscribe_def ws_send_def on_def
      handlers_of_def Set_add_def subscription_key_def new_PicnicAPI_def ws_onopen_def emit_def
      forEach.simps guarded_def invoke_def inert_def)

section \<open>The reconnect schedule\<close>

lemma scheduleReconnect_frame:
  "wsReconnectAttempts (scheduleReconnect s) = wsReconnectAttempts s"
  "maxWsReconnectAttempts (scheduleReconnect s) = maxWsReconnectAttempts s"
  "wsReconnectDelay (scheduleReconnect s) = wsReconnectDelay s"
  "eventHandlers (scheduleReconnect s) = eventHandlers s"
  "calls (scheduleReconnect s) = calls s"
  by (simp_all add: scheduleReconnect_def)

lemma reconnect_timer_frame:
  "wsReconnectAttempts (reconnect_timer True s) = wsReconnectAttempts s + 1"
  "maxWsReconnectAttempts (reconnect_timer True s) = maxWsReconnectAttempts s"
  "wsReconnectDelay (reconnect_timer True s) = wsReconnectDelay s"
  "eventHandlers (reconnect_timer True s) = eventHandlers s"
  "calls (reconnect_timer True s) = calls s"
  "timers (reconnect_timer True s) = timers s"
  by (simp_all add: reconnect_timer_def connectWebSocket_def)

lemma failed_round_step:
  assumes "failed_round b s = Some s1"
  shows "maxWsReconnectAttempts s1 = maxWsReconnectAttempts s"
    "wsReconnectDelay s1 = wsReconnectDelay s"
    "wsReconnectAttempts s < maxWsReconnectAttempts s \<Longrightarrow>
       timers s1 = timers s @ [wsReconnectDelay s * 2 ^ wsReconnectAttempts s]
       \<and> wsReconnectAttempts s1 = wsReconnectAttempts s + 1"
    "\<not> wsReconnectAttempts s < maxWsReconnectAttempts s \<Longrightarrow>
       timers s1 = timers s \<and> wsReconnectAttempts s1 = wsReconnectAttempts s"
proof -
  let ?e = "emit b ''ws:disconnected'' PUndefined (s\<lparr>ws := Some CLOSED\<rparr>)"
  from assms obtain r s0 where e: "?e = Some (r, s0)"
    by (cases ?e) (auto simp: failed_round_def ws_onclose_def)
  from emit_no_error [OF e] have r: "r = Inr ()" .
  from emit_frame [OF e] have f: "wsReconnectAttempts s0 = wsReconnectAttempts s"
    "maxWsReconnectAttempts s0 = maxWsReconnectAttempts s"
    "wsReconnectDelay s0 = wsReconnectDelay s" "timers s0 = timers s" by simp_all
  from e r have c: "ws_onclose b s = Some (Inr (), scheduleReconnect s0)"
    by (simp add: ws_onclose_def)
  let ?s2 = "scheduleReconnect s0"
  from assms c have s1: "s1 = (if length (timers s) < length (timers ?s2)
      then reconnect_timer True ?s2 else ?s2)"
    by (simp add: failed_round_def)
  show "maxWsReconnectAttempts s1 = maxWsReconnectAttempts s"
    using s1 f by (simp add: scheduleReconnect_frame reconnect_timer_frame)
  show "wsReconnectDelay s1 = wsReconnectDelay s"
    using s1 f by (simp add: scheduleReconnect_frame reconnect_timer_frame)
  show "timers s1 = timers s @ [wsReconnectDelay s * 2 ^ wsReconnectAttempts s]
       \<and> wsReconnectAttempts s1 = wsReconnectAttempts s + 1"
    if lt: "wsReconnectAttempts s < maxWsReconnectAttempts s"
  proof -
    from lt f have t2: "timers ?s2 = timers s @ [wsReconnectDelay s * 2 ^ wsReconnectAttempts s]"
      by (simp add: scheduleReconnect_def)
    then have "s1 = reconnect_timer True ?s2" using s1 by simp
    with t2 f show ?thesis
      by (simp add: reconnect_timer_frame scheduleReconnect_frame)
  qed
  show "timers s1 = timers s \<and> wsReconnectAttempts s1 = wsReconnectAttempts s"
    if ge: "\<not> wsReconnectAttempts s < maxWsReconnectAttempts s"
  proof -
    from ge f have "?s2 = s0" by (simp add: scheduleReconnect_def)
    with s1 f show ?thesis by simp
  qed
qed

lemma failed_rounds_schedule:
  assumes "failed_rounds n b s = Some s'"
  shows "timers s' = timers s
      @ backoff s (wsReconnectAttempts s) (min (wsReconnectAttempts s + n) (maxWsReconnectAttempts s))
    \<and> wsReconnectAttempts s'
        = max (wsReconnectAttempts s) (min (wsReconnectAttempts s + n) (maxWsReconnectAttempts s))
    \<and> maxWsReconnectAttempts s' = maxWsReconnectAttempts s
    \<and> wsReconnectDelay s' = wsReconnectDelay s"
  using assms
proof (induction n arbitrary: s)
  case 0
  then show ?case by (simp add: backoff_def)
next
  case (Suc n)
  from Suc.prems obtain s1 where r: "failed_round b s = Some s1" and rest: "failed_rounds n b s1 = Some s'"
    by (cases "failed_round b s") auto
  note st = failed_round_step [OF r]
  note ih = Suc.IH [OF rest]
  let ?a = "wsReconnectAttempts s" and ?M = "maxWsReconnectAttempts s"
  show ?case
  proof (cases "?a < ?M")
    case True
    from st(3) [OF True] have t1: "timers s1 = timers s @ [wsReconnectDelay s * 2 ^ ?a]"
      and a1: "wsReconnectAttempts s1 = ?a + 1" by simp_all
    from True have "[?a..<min (?a + Suc n) ?M] = ?a # [?a + 1..<min (?a + 1 + n) ?M]"
      using upt_conv_Cons [of ?a "min (?a + Suc n) ?M"] by simp
    then have "backoff s ?a (min (?a + Suc n) ?M)
        = (wsReconnectDelay s * 2 ^ ?a) # backoff s1 (?a + 1) (min (?a + 1 + n) ?M)"
      using st(2) by (simp add: backoff_def)
    with ih t1 a1 st(1,2) True show ?thesis by auto
  next
    case False
    from st(4) [OF False] have t1: "timers s1 = timers s"
      and a1: "wsReconnectAttempts s1 = ?a" by simp_all
    from False have "backoff s ?a (min (?a + Suc n) ?M) = []" "backoff s1 ?a (min (?a + n) ?M) = []"
      by (simp_all add: backoff_def)
    with ih t1 a1 st(1,2) False show ?thesis by auto
  qed
qed

lemma sorted_backoff: "sorted (backoff s lo hi)"
proof -
  have "wsReconnectDelay s * 2 ^ i \<le> wsReconnectDelay s * 2 ^ j" if "i \<le> j" for i j :: nat
    using that by (simp add: power_increasing)
  then show ?thesis
    by (auto simp: backoff_def sorted_map intro!: sorted_wrt_mono_rel [of _ "(\<le>)", OF _ sorted_upt])
qed

lemma failed_round_notifies:
  assumes "never changes_handlers b"
  shows "\<exists>s1. failed_round b s = Some s1 \<and> eventHandlers s1 = eventHandlers s
     \<and> calls s1 = calls s
         @ map (\<lambda>callback. (callback, PUndefined)) (live (handlers_of ''ws:disconnected'' s))"
proof -
  let ?s0 = "s\<lparr>ws := Some CLOSED\<rparr>"
  from emit_static [OF assms, of "''ws:disconnected''" PUndefined ?s0] obtain s0 where
    e: "emit b ''ws:disconnected'' PUndefined ?s0 = Some (Inr (), s0)"
    and c: "calls s0 = calls s
         @ map (\<lambda>callback. (callback, PUndefined)) (live (handlers_of ''ws:disconnected'' s))"
    by (auto simp: handlers_of_def)
  from emit_handlers [OF assms e] have h: "eventHandlers s0 = eventHandlers s" by simp
  from e have "ws_onclose b s = Some (Inr (), scheduleReconnect s0)"
    by (simp add: ws_onclose_def)
  with c h show ?thesis
    by (simp add: failed_round_def scheduleReconnect_frame reconnect_timer_frame)
qed

lemma failed_rounds_notify:
  assumes "never changes_handlers b"
  shows "\<exists>s'. failed_rounds n b s = Some s'
     \<and> calls s' = calls s
         @ concat (replicate n
             (map (\<lambda>callback. (callback, PUndefined)) (live (handlers_of ''ws:disconnected'' s))))"
proof (induction n arbitrary: s)
  case 0
  show ?case by simp
next
  case (Suc n)
  from failed_round_notifies [OF assms, of s] obtain s1 where
    r: "failed_round b s = Some s1" and h: "eventHandlers s1 = eventHandlers s"
    and c: "calls s1 = calls s
         @ map (\<lambda>callback. (callback, PUndefined)) (live (handlers_of ''ws:disconnected'' s))"
    by blast
  from Suc [of s1] obtain s' where
    "failed_rounds n b s1 = Some s'"
    "calls s' = calls s1
         @ concat (replicate n
             (map (\<lambda>callback. (callback, PUndefined)) (live (handlers_of ''ws:disconnected'' s1))))"
    by blast
  moreover from h have "handlers_of ''ws:disconnected'' s1 = handlers_of ''ws:disconnected'' s"
    by (simp add: handlers_of_def)
  ultimately show ?case using r c by simp
qed

text \<open>
  Claim C4, as the code has it. Over \<open>n\<close> rounds of a failing connection the timers armed
  are \<open>wsReconnectDelay * 2 ^ k\<close> for \<open>k\<close> from the attempt counter at the start up to (not
  including) the maximum, a non-decreasing sequence, and the counter ends at the maximum:
  once it has reached \<^verbatim>\<open>maxWsReconnectAttempts\<close>, \<^verbatim>\<open>scheduleReconnect\<close> does nothing at
  all. Nothing announces that: the handlers of \<^verbatim>\<open>ws:disconnected\<close> are called, without
  data, once at every close of the socket, before and after the maximum alike.
\<close>

theorem reconnect_backoff_schedule:
  "(\<forall>s'. failed_rounds n b s = Some s' \<longrightarrow>
      timers s' = timers s
        @ backoff s (wsReconnectAttempts s) (min (wsReconnectAttempts s + n) (maxWsReconnectAttempts s))
      \<and> wsReconnectAttempts s'
          = max (wsReconnectAttempts s) (min (wsReconnectAttempts s + n) (maxWsReconnectAttempts s)))
   \<and> sorted (backoff s (wsReconnectAttempts s)
               (min (wsReconnectAttempts s + n) (maxWsReconnectAttempts s)))
   \<and> (maxWsReconnectAttempts s \<le> wsReconnectAttempts s \<longrightarrow> scheduleReconnect s = s)
   \<and> (never changes_handlers b \<longrightarrow>
        (\<exists>s'. failed_rounds n b s = Some s'
           \<and> calls s' = calls s
               @ concat (replicate n
                   (map (\<lambda>callback. (callback, PUndefined))
                      (live (handlers_of ''ws:disconnected'' s))))))"
proof (intro conjI allI impI)
  fix s' assume "failed_rounds n b s = Some s'"
  from failed_rounds_schedule [OF this]
  show "timers s' = timers s
        @ backoff s (wsReconnectAttempts s) (min (wsReconnectAttempts s + n) (maxWsReconnectAttempts s))"
    "wsReconnectAttempts s'
          = max (wsReconnectAttempts s) (min (wsReconnectAttempts s + n) (maxWsReconnectAttempts s))"
    by simp_all
next
  show "sorted (backoff s (wsReconnectAttempts s)
               (min (wsReconnectAttempts s + n) (maxWsReconnectAttempts s)))"
    by (rule sorted_backoff)
next
  assume "maxWsReconnectAttempts s \<le> wsReconnectAttempts s"
  then show "scheduleReconnect s = s" by (simp add: scheduleReconnect_def)
next
  assume "never changes_handlers b"
  then show "\<exists>s'. failed_rounds n b s = Some s'
           \<and> calls s' = calls s
               @ concat (replicate n
                   (map (\<lambda>callback. (callback, PUndefined))
                      (live (handlers_of ''ws:disconnected'' s))))"
    by (rule failed_rounds_notify)
qed

lemma watched_client_fields:
  "wsReconnectAttempts watched_client = 0" "maxWsReconnectAttempts watched_client = 10"
  "wsReconnectDelay watched_client = 1000" "timers watched_client = []" "calls watched_client = []"
  "live (handlers_of ''ws:disconnected'' watched_client) = [5]"
  by (simp_all add: watched_client_def connectWebSocket_def on_def handlers_of_def Set_add_def
      new_PicnicAPI_def)

theorem reconnect_backoff_schedule_witness:
  "never changes_handlers inert
   \<and> maxWsReconnectAttempts exhausted_client \<le> wsReconnectAttempts exhausted_client
   \<and> scheduleReconnect exhausted_client = exhausted_client
   \<and> (\<exists>s'. failed_rounds 12 inert watched_client = Some s'
         \<and> timers s' = [1000, 2000, 4000, 8000, 16000, 32000, 64000, 128000, 256000, 512000]
         \<and> wsReconnectAttempts s' = 10
         \<and> calls s' = concat (replicate 12 [(5, PUndefined)]))"
proof -
  have h: "maxWsReconnectAttempts exhausted_client \<le> wsReconnectAttempts exhausted_client"
    by (simp add: exhausted_client_def watched_client_fields)
  from reconnect_backoff_schedule [of 0 inert exhausted_client] h
  have x: "scheduleReconnect exhausted_client = exhausted_client" by blast
  note t = reconnect_backoff_schedule [of 12 inert watched_client]
  from t never_inert obtain s' where s': "failed_rounds 12 inert watched_client = Some s'"
    "calls s' = calls watched_client
       @ concat (replicate 12 (map (\<lambda>callback. (callback, PUndefined))
           (live (handlers_of ''ws:disconnected'' watched_client))))"
    by blast
  from t s'(1) have "timers s' = timers watched_client
        @ backoff watched_client (wsReconnectAttempts watched_client)
            (min (wsReconnectAttempts watched_client + 12) (maxWsReconnectAttempts watched_client))"
    "wsReconnectAttempts s'
          = max (wsReconnectAttempts watched_client)
              (min (wsReconnectAttempts watched_client + 12) (maxWsReconnectAttempts watched_client))"
    by blast+
  then have "timers s' = [1000, 2000, 4000, 8000, 16000, 32000, 64000, 128000, 256000, 512000]"
    "wsReconnectAttempts s' = 10"
    by (simp_all add: watched_client_fields backoff_def upt_conv_Cons)
  moreover from s'(2) have "calls s' = concat (replicate 12 [(5, PUndefined)])"
    by (simp add: watched_client_fields)
  ultimately show ?thesis using s'(1) h x never_inert by blast
qed

text \<open>
  Against claim C4 as stated: the handler of \<^verbatim>\<open>ws:disconnected\<close> is called, without
  data, at the first close already, when a reconnect is scheduled; it is called in the
  same way at a close with the attempts used up, when none is scheduled; and over eleven
  rounds of a failing connection it is called eleven times, not once.
\<close>

theorem connection_lost_counterexample:
  "map_option (calls \<circ> snd) (ws_onclose inert watched_client) = Some [(5, PUndefined)]
   \<and> map_option (timers \<circ> snd) (ws_onclose inert watched_client) = Some [1000]
   \<and> map_option (calls \<circ> snd) (ws_onclose inert exhausted_client) = Some [(5, PUndefined)]
   \<and> map_option (timers \<circ> snd) (ws_onclose inert exhausted_client) = Some []
   \<and> map_option calls (failed_rounds 11 inert watched_client)
       = Some (concat (replicate 11 [(5, PUndefined)]))"
proof -
  have a: "ws_onclose inert watched_client
      = Some (Inr (), watched_client\<lparr>ws := Some CLOSED, calls := [(5, PUndefined)], timers := [1000]\<rparr>)"
    by (simp add: ws_onclose_def emit_def forEach.simps guarded_def invoke_def inert_def
        scheduleReconnect_def watched_client_def connectWebSocket_def on_def handlers_of_def
        Set_add_def new_PicnicAPI_def)
  have b: "ws_onclose inert exhausted_client
      = Some (Inr (), exhausted_client\<lparr>ws := Some CLOSED, calls := [(5, PUndefined)]\<rparr>)"
    by (simp add: ws_onclose_def emit_def forEach.simps guarded_def invoke_def inert_def
        scheduleReconnect_def exhausted_client_def watched_client_def connectWebSocket_def on_def
        handlers_of_def Set_add_def new_PicnicAPI_def)
  from failed_rounds_notify [OF never_inert, of 11 watched_client]
  have c: "map_option calls (failed_rounds 11 inert watched_client)
       = Some (concat (replicate 11 [(5, PUndefined)]))"
    by (auto simp: watched_client_fields)
  from a b c show ?thesis
    by (simp add: exhausted_client_def watched_client_fields)
qed

end
